theory Spec2Isabelle
  imports Main "HOL-Library.Sublist"
begin

unbundle bit_operations_syntax

section \<open>Chunked content hasher (common.ts)\<close>

text \<open>
  File contents and hash input are byte strings. The digest primitive of Node's
  \<open>crypto\<close> module is not part of the repository: every function below takes it as the
  parameter \<open>sha\<close>, the map from a byte string to the lowercase-hex sha256 of it.
  A \<open>Hash\<close> object is the byte string fed to it so far; \<open>update\<close> appends and
  \<open>digest\<close> applies \<open>sha\<close>.
\<close>

type_synonym bytes = string

definition MB100 :: nat where "MB100 = 100000000"
definition MB20 :: nat where "MB20 = 20000000"
definition MB2 :: nat where "MB2 = 2000000"

datatype io_error = ENOENT | RangeError | TypeError | HashblockDifferent

record HashBlock =
  hb_hash :: string
  hb_start :: int
  hb_end :: int

record PartOptions =
  opt_start :: "nat option"
  opt_end :: "nat option"
  opt_highWaterMark :: "nat option"

definition noOptions :: PartOptions where
  "noOptions = \<lparr>opt_start = None, opt_end = None, opt_highWaterMark = None\<rparr>"

definition createHash :: bytes where
  "createHash = []"

definition update :: "bytes \<Rightarrow> bytes \<Rightarrow> bytes" where
  "update h d = h @ d"

definition digest :: "(bytes \<Rightarrow> string) \<Rightarrow> bytes \<Rightarrow> string" where
  "digest sha h = sha h"

text \<open>
  \<open>createReadStream\<close> delivers the bytes \<open>start..end\<close> (both inclusive, clamped to the
  file) in chunks of at most \<open>highWaterMark\<close> bytes. A high-water mark of 0 is never
  passed by the callers; the model delivers the range as one chunk then.
\<close>

function chunks :: "nat \<Rightarrow> bytes \<Rightarrow> bytes list" where
  "chunks hwm xs =
     (if xs = [] then []
      else if hwm = 0 then [xs]
      else take hwm xs # chunks hwm (drop hwm xs))"
  by pat_completeness auto
termination
  by (relation "measure (\<lambda>(hwm, xs). length xs)") auto

declare chunks.simps [simp del]

definition createReadStream :: "(string \<rightharpoonup> bytes) \<Rightarrow> string \<Rightarrow> PartOptions \<Rightarrow> io_error + bytes list" where
  "createReadStream fs filepath options =
     (case fs filepath of
        None \<Rightarrow> Inl ENOENT
      | Some content \<Rightarrow>
          let s = (case opt_start options of None \<Rightarrow> 0 | Some a \<Rightarrow> a);
              hwm = (case opt_highWaterMark options of None \<Rightarrow> MB2 | Some w \<Rightarrow> w)
          in (case opt_end options of
                None \<Rightarrow> Inr (chunks hwm (drop s content))
              | Some e \<Rightarrow>
                  if e < s then Inl RangeError
                  else Inr (chunks hwm (take (e + 1 - s) (drop s content)))))"

definition optOrMinus1 :: "nat option \<Rightarrow> int" where
  "optOrMinus1 v = (case v of None \<Rightarrow> - 1 | Some n \<Rightarrow> int n)"

definition getPartHash :: "(bytes \<Rightarrow> string) \<Rightarrow> (string \<rightharpoonup> bytes) \<Rightarrow> string \<Rightarrow> PartOptions \<Rightarrow> io_error + HashBlock" where
  "getPartHash sha fs filepath options =
     (case createReadStream fs filepath options of
        Inl e \<Rightarrow> Inl e
      | Inr ds \<Rightarrow>
          Inr \<lparr>hb_hash = digest sha (fold (\<lambda>d h. update h d) ds createHash),
               hb_start = optOrMinus1 (opt_start options),
               hb_end = optOrMinus1 (opt_end options)\<rparr>)"

text \<open>\<open>Math.ceil(size / MB100)\<close> on the sizes a file can have.\<close>

definition divider_of :: "nat \<Rightarrow> nat" where
  "divider_of sz = (sz + MB100 - 1) div MB100"

text \<open>
  The block table of both functions: \<open>divider\<close> ranges of \<open>MB100\<close> bytes, then the end
  of the last one is overwritten. With no block at all, \<open>blocks[-1].end\<close> is a property
  write on \<open>undefined\<close>, a TypeError.
\<close>

definition blockTable :: "nat \<Rightarrow> io_error + (nat \<times> nat) list" where
  "blockTable sz =
     (let divider = divider_of sz;
          blocks = map (\<lambda>i. (i * MB100, (i + 1) * MB100 - 1)) [0..<divider]
      in if divider = 0 then Inl TypeError
         else Inr (blocks[divider - 1 := (fst (blocks ! (divider - 1)), min (MB100 * divider) sz - 1)]))"

text \<open>\<open>Promise.all\<close>: all results in index order, or the rejection of a failed element.\<close>

fun promiseAll :: "('e + 'a) list \<Rightarrow> 'e + 'a list" where
  "promiseAll [] = Inr []"
| "promiseAll (Inl e # ps) = Inl e"
| "promiseAll (Inr v # ps) = (case promiseAll ps of Inl e \<Rightarrow> Inl e | Inr vs \<Rightarrow> Inr (v # vs))"

record FileHash =
  filehash :: string
  hashBlocks :: "HashBlock list option"

definition blockOptions :: "nat \<times> nat \<Rightarrow> PartOptions" where
  "blockOptions b = \<lparr>opt_start = Some (fst b), opt_end = Some (snd b), opt_highWaterMark = Some MB2\<rparr>"

definition calculateFileHash :: "(bytes \<Rightarrow> string) \<Rightarrow> (string \<rightharpoonup> bytes) \<Rightarrow> string \<Rightarrow> io_error + FileHash" where
  "calculateFileHash sha fs filepath =
     (case fs filepath of
        None \<Rightarrow> Inl ENOENT
      | Some content \<Rightarrow>
          if length content < MB20 then
            (case getPartHash sha fs filepath noOptions of
               Inl e \<Rightarrow> Inl e
             | Inr oid \<Rightarrow> Inr \<lparr>filehash = hb_hash oid, hashBlocks = None\<rparr>)
          else
            (case blockTable (length content) of
               Inl e \<Rightarrow> Inl e
             | Inr blocks \<Rightarrow>
                 (case promiseAll (map (\<lambda>b. getPartHash sha fs filepath (blockOptions b)) blocks) of
                    Inl e \<Rightarrow> Inl e
                  | Inr hashes \<Rightarrow>
                      Inr \<lparr>filehash = digest sha (fold (\<lambda>h acc. update acc (hb_hash h)) hashes createHash),
                           hashBlocks = Some hashes\<rparr>)))"

text \<open>
  \<open>compareFileHash\<close>. The expected block hashes are strings; a missing entry
  (\<open>hashBlocks[i]\<close> past the end) is \<open>undefined\<close> and differs from every hash. The final
  fold feeds \<open>h.toString()\<close> of each \<open>HashBlock\<close> object, which is the text
  \<open>[object Object]\<close> for a plain object. The rejection \<open>hashblock different\<close> is turned
  into the result \<open>false\<close>; any other rejection is passed on.
\<close>

definition objectToString :: "HashBlock \<Rightarrow> string" where
  "objectToString h = ''[object Object]''"

definition checkBlock :: "string list option \<Rightarrow> nat \<Rightarrow> io_error + HashBlock \<Rightarrow> io_error + HashBlock" where
  "checkBlock expected i r =
     (case r of
        Inl e \<Rightarrow> Inl e
      | Inr hashBlock \<Rightarrow>
          (case expected of
             None \<Rightarrow> Inr hashBlock
           | Some hs \<Rightarrow>
               if i < length hs \<and> hb_hash hashBlock = hs ! i then Inr hashBlock
               else Inl HashblockDifferent))"

definition compareFileHash :: "(bytes \<Rightarrow> string) \<Rightarrow> (string \<rightharpoonup> bytes) \<Rightarrow> string \<Rightarrow> string \<Rightarrow> string list option \<Rightarrow> io_error + bool" where
  "compareFileHash sha fs filepath expectedHash expectedBlocks =
     (let r =
        (case fs filepath of
           None \<Rightarrow> Inl ENOENT
         | Some content \<Rightarrow>
             if length content < MB20 then
               (case getPartHash sha fs filepath noOptions of
                  Inl e \<Rightarrow> Inl e
                | Inr hashBlock \<Rightarrow> Inr (hb_hash hashBlock = expectedHash))
             else
               (case blockTable (length content) of
                  Inl e \<Rightarrow> Inl e
                | Inr blocks \<Rightarrow>
                    (case promiseAll (map (\<lambda>(i, b). checkBlock expectedBlocks i (getPartHash sha fs filepath (blockOptions b)))
                                          (zip [0..<length blocks] blocks)) of
                       Inl e \<Rightarrow> Inl e
                     | Inr hashes \<Rightarrow>
                         Inr (expectedHash = digest sha (fold (\<lambda>h acc. update acc (objectToString h)) hashes createHash)))))
      in (case r of Inl HashblockDifferent \<Rightarrow> Inr False | _ \<Rightarrow> r))"

text \<open>
  The block hash that \<open>getPartHash\<close> resolves to for the byte range \<open>b\<close> of a file, and
  inputs on which the functions are evaluated below: a file of 20,000,000 zero bytes, a
  two-byte file, and a concrete function in the place of \<open>sha\<close> for closed instances
  (the theorems hold for every \<open>sha\<close>).
\<close>

definition blockHash :: "(bytes \<Rightarrow> string) \<Rightarrow> bytes \<Rightarrow> nat \<times> nat \<Rightarrow> HashBlock" where
  "blockHash sha content b =
     \<lparr>hb_hash = sha (take (snd b + 1 - fst b) (drop (fst b) content)),
      hb_start = int (fst b), hb_end = int (snd b)\<rparr>"

definition bigContent :: bytes where
  "bigContent = replicate 20000000 (CHR 0x00)"

definition bigFs :: "string \<rightharpoonup> bytes" where
  "bigFs = [''zero.bin'' \<mapsto> bigContent]"

definition smallFs :: "string \<rightharpoonup> bytes" where
  "smallFs = [''a.txt'' \<mapsto> ''hi'']"

definition exampleDigest :: "bytes \<Rightarrow> string" where
  "exampleDigest b = rev b"

section \<open>Path utility (path.ts) over Node's \<open>path\<close> module\<close>

text \<open>
  Strings are lists of 8-bit characters. \<open>path.normalize\<close> and \<open>path.join\<close> belong to
  Node's \<open>path\<close> module, not to the repository; they are modelled here after the POSIX
  variant of Node's \<open>lib/path.js\<close> (separator \<open>/\<close>), loop for loop, because the functions
  of \<open>path.ts\<close> are thin wrappers around them.
\<close>

definition isPosixPathSeparator :: "char \<Rightarrow> bool" where
  "isPosixPathSeparator c = (c = CHR ''/'')"

text \<open>\<open>String.prototype.lastIndexOf\<close> for one character, \<open>-1\<close> when it does not occur.\<close>

fun lastIndexOf :: "string \<Rightarrow> char \<Rightarrow> int" where
  "lastIndexOf [] c = - 1"
| "lastIndexOf (x # xs) c =
     (let r = lastIndexOf xs c
      in if r \<noteq> - 1 then r + 1 else if x = c then 0 else - 1)"

text \<open>\<open>s.slice(a, b)\<close> for \<open>0 \<le> a\<close>.\<close>

definition slice :: "string \<Rightarrow> nat \<Rightarrow> nat \<Rightarrow> string" where
  "slice s a b = take (b - a) (drop a s)"

record ns_state =
  res :: string
  lastSegmentLength :: int
  lastSlash :: int
  dots :: int
  code :: char

definition ns_init :: ns_state where
  "ns_init = \<lparr>res = [], lastSegmentLength = 0, lastSlash = - 1, dots = 0, code = CHR 0x00\<rparr>"

text \<open>
  The body of the loop of \<open>normalizeString\<close> at index \<open>i\<close>, once \<open>code\<close> is set. Every
  branch taken at a separator ends with \<open>lastSlash = i; dots = 0\<close> (the two \<open>continue\<close>
  statements set them before they leave).
\<close>

definition ns_body :: "bool \<Rightarrow> string \<Rightarrow> nat \<Rightarrow> ns_state \<Rightarrow> ns_state" where
  "ns_body allowAboveRoot path i st =
     (if isPosixPathSeparator (code st) then
        (let st' =
           (if lastSlash st = int i - 1 \<or> dots st = 1 then st
            else if dots st = 2 then
              (let r = res st; n = length r in
               if (n < 2 \<or> lastSegmentLength st \<noteq> 2
                     \<or> r ! (n - 1) \<noteq> CHR ''.'' \<or> r ! (n - 2) \<noteq> CHR ''.'') \<and> n > 2 then
                 (let lastSlashIndex = lastIndexOf r CHR ''/'' in
                  if lastSlashIndex = - 1 then st\<lparr>res := [], lastSegmentLength := 0\<rparr>
                  else
                    (let r' = take (nat lastSlashIndex) r
                     in st\<lparr>res := r',
                           lastSegmentLength := int (length r') - 1 - lastIndexOf r' CHR ''/''\<rparr>))
               else if (n < 2 \<or> lastSegmentLength st \<noteq> 2
                     \<or> r ! (n - 1) \<noteq> CHR ''.'' \<or> r ! (n - 2) \<noteq> CHR ''.'') \<and> n \<noteq> 0 then
                 st\<lparr>res := [], lastSegmentLength := 0\<rparr>
               else if allowAboveRoot then
                 st\<lparr>res := (if n > 0 then r @ ''/..'' else ''..''), lastSegmentLength := 2\<rparr>
               else st)
            else
              st\<lparr>res := (if length (res st) > 0
                           then res st @ ''/'' @ slice path (nat (lastSlash st + 1)) i
                           else slice path (nat (lastSlash st + 1)) i),
                 lastSegmentLength := int i - lastSlash st - 1\<rparr>)
         in st'\<lparr>lastSlash := int i, dots := 0\<rparr>)
      else if code st = CHR ''.'' \<and> dots st \<noteq> - 1 then st\<lparr>dots := dots st + 1\<rparr>
      else st\<lparr>dots := - 1\<rparr>)"

text \<open>
  \<open>for (let i = 0; i <= path.length; ++i)\<close>: the indices below \<open>path.length\<close> read the
  character; the last round stops if the previous character was a separator and otherwise
  runs the body on a virtual \<open>/\<close>.
\<close>

definition normalizeString :: "string \<Rightarrow> bool \<Rightarrow> string" where
  "normalizeString path allowAboveRoot =
     (let st = fold (\<lambda>i st. ns_body allowAboveRoot path i (st\<lparr>code := path ! i\<rparr>))
                    [0..<length path] ns_init
      in if isPosixPathSeparator (code st) then res st
         else res (ns_body allowAboveRoot path (length path) (st\<lparr>code := CHR ''/''\<rparr>)))"

definition posix_normalize :: "string \<Rightarrow> string" where
  "posix_normalize path =
     (if length path = 0 then ''.''
      else
        (let isAbsolute = (path ! 0 = CHR ''/'');
             trailingSeparator = (path ! (length path - 1) = CHR ''/'');
             p = normalizeString path (\<not> isAbsolute)
         in if length p = 0 then
              (if isAbsolute then ''/'' else if trailingSeparator then ''./'' else ''.'')
            else
              (let p' = (if trailingSeparator then p @ ''/'' else p)
               in if isAbsolute then ''/'' @ p' else p')))"

text \<open>
  \<open>path.join\<close>: the non-empty arguments joined by \<open>/\<close> and normalized; \<open>.\<close> when there
  is nothing to join.
\<close>

fun joinArgs :: "string list \<Rightarrow> string option" where
  "joinArgs [] = None"
| "joinArgs (a # as) =
     (if length a > 0 then
        (case joinArgs as of None \<Rightarrow> Some a | Some j \<Rightarrow> Some (a @ ''/'' @ j))
      else joinArgs as)"

definition posix_join :: "string list \<Rightarrow> string" where
  "posix_join paths = (case joinArgs paths of None \<Rightarrow> ''.'' | Some joined \<Rightarrow> posix_normalize joined)"

text \<open>\<open>p.replace(/\\/g, '/')\<close> and \<open>p.endsWith(s)\<close>, \<open>p.startsWith(s)\<close>.\<close>

definition replaceBackslashes :: "string \<Rightarrow> string" where
  "replaceBackslashes p = map (\<lambda>c. if c = CHR 0x5C then CHR ''/'' else c) p"

definition endsWith :: "string \<Rightarrow> string \<Rightarrow> bool" where
  "endsWith p s = suffix s p"

definition startsWith :: "string \<Rightarrow> string \<Rightarrow> bool" where
  "startsWith p s = prefix s p"

text \<open>
  \<open>normalize\<close> of path.ts, named \<open>normalize_path\<close> here because HOL has a constant
  \<open>normalize\<close> of its own.
\<close>

definition normalize_path :: "string \<Rightarrow> string" where
  "normalize_path p0 =
     (if p0 = '''' \<or> p0 = ''.'' then ''''
      else
        (let p = replaceBackslashes (posix_normalize p0)
         in if p \<noteq> ''/'' \<and> endsWith p ''/'' then take (length p - 1) p else p))"

text \<open>\<open>properNormalize\<close> of common.ts (\<open>sep\<close> is \<open>/\<close>).\<close>

definition properNormalize :: "string \<Rightarrow> string" where
  "properNormalize path =
     (let p = posix_normalize path
      in if endsWith p ''/'' then take (length p - 1) p else p)"

section \<open>Ignore matcher (ignore.ts)\<close>

text \<open>
  The class that repository.ts imports keeps two lists of regular expressions. A regular
  expression is kept as its source text; JavaScript's \<open>RegExp\<close> engine is not part of the
  repository, so the functions take \<open>valid\<close> (does \<open>new RegExp(s)\<close> succeed) and \<open>exec\<close>
  (does \<open>regex.exec(subject)\<close> find a match) as parameters.
\<close>

record IgnoreManager =
  m_ignores :: "string list"
  m_includes :: "string list"

record InitResult =
  success :: bool
  errorText :: string

definition isStrWhiteSpace :: "char \<Rightarrow> bool" where
  "isStrWhiteSpace c = (c \<in> {CHR 0x09, CHR 0x0A, CHR 0x0B, CHR 0x0C, CHR 0x0D, CHR 0x20, CHR 0xA0})"

definition trim :: "string \<Rightarrow> string" where
  "trim s = rev (dropWhile isStrWhiteSpace (rev (dropWhile isStrWhiteSpace s)))"

text \<open>\<open>s.split(c)\<close> for a one-character separator: always at least one piece.\<close>

fun splitOn :: "char \<Rightarrow> string \<Rightarrow> string list" where
  "splitOn c [] = [[]]"
| "splitOn c (x # xs) =
     (if x = c then [] # splitOn c xs
      else (case splitOn c xs of [] \<Rightarrow> [[x]] | s # ss \<Rightarrow> (x # s) # ss))"

text \<open>
  \<open>line.replace(/\/\*[\s\S]*?\*\/|\/\/.*/g, '')\<close>: at each position, a block comment that
  is closed later in the line is removed up to its first closing mark; otherwise a \<open>//\<close>
  removes the rest of the line; otherwise the character stays.
\<close>

fun afterClose :: "string \<Rightarrow> string option" where
  "afterClose (x # y # r) = (if x = CHR ''*'' \<and> y = CHR ''/'' then Some r else afterClose (y # r))"
| "afterClose _ = None"

lemma afterClose_shorter: "afterClose s = Some r \<Longrightarrow> length r < length s"
  by (induction s rule: afterClose.induct) (auto split: if_splits)

function stripComments :: "string \<Rightarrow> string" where
  "stripComments [] = []"
| "stripComments (x # xs) =
     (case (if x = CHR ''/'' \<and> xs \<noteq> [] \<and> hd xs = CHR ''*'' then afterClose (tl xs) else None) of
        Some r \<Rightarrow> stripComments r
      | None \<Rightarrow>
          if x = CHR ''/'' \<and> xs \<noteq> [] \<and> hd xs = CHR ''/'' then []
          else x # stripComments xs)"
  by pat_completeness auto
termination
proof (relation "measure length")
  show "wf (measure length)" by simp
next
  fix x :: char and xs r :: string
  assume "(if x = CHR ''/'' \<and> xs \<noteq> [] \<and> hd xs = CHR ''*'' then afterClose (tl xs) else None) = Some r"
  then have "afterClose (tl xs) = Some r" by (simp split: if_splits)
  then have "length r < length (tl xs)" by (rule afterClose_shorter)
  then show "(r, x # xs) \<in> measure length" by simp
next
  fix x :: char and xs :: string
  show "(xs, x # xs) \<in> measure length" by simp
qed

text \<open>\<open>s.replace(c, t)\<close> with a string or non-global pattern: the first occurrence only.\<close>

fun replaceFirst :: "char \<Rightarrow> string \<Rightarrow> string \<Rightarrow> string" where
  "replaceFirst c t [] = []"
| "replaceFirst c t (x # xs) = (if x = c then t @ xs else x # replaceFirst c t xs)"

text \<open>
  One round of the loop of \<open>init\<close> over the lines: \<open>Inl line\<close> is the early
  \<open>return { success: false, ... }\<close> taken when the expression does not compile.
\<close>

definition initLine :: "(string \<Rightarrow> bool) \<Rightarrow> IgnoreManager \<Rightarrow> string \<Rightarrow> string + IgnoreManager" where
  "initLine valid m line0 =
     (let line1 = trim line0 in
      if length line1 > 0 \<and> \<not> startsWith line1 ''//'' then
        (let line2 = stripComments line1;
             line3 = replaceFirst (CHR 0x5C) ''/'' line2;
             except = startsWith line3 ''!'';
             line4 = (if except then drop 1 line3 else line3);
             regexStr = replaceFirst CHR ''*'' (''['' @ [CHR 0x5C] @ ''w/]*'') line4
         in if \<not> valid regexStr then Inl line4
            else if except then Inr (m\<lparr>m_includes := m_includes m @ [regexStr]\<rparr>)
            else Inr (m\<lparr>m_ignores := m_ignores m @ [regexStr]\<rparr>))
      else Inr m)"

fun initLines :: "(string \<Rightarrow> bool) \<Rightarrow> IgnoreManager \<Rightarrow> string list \<Rightarrow> IgnoreManager \<times> InitResult" where
  "initLines valid m [] = (m, \<lparr>success = True, errorText = []\<rparr>)"
| "initLines valid m (l # ls) =
     (case initLine valid m l of
        Inl line \<Rightarrow> (m, \<lparr>success = False, errorText = ''Invalid Expression in ignore file: '' @ line\<rparr>)
      | Inr m' \<Rightarrow> initLines valid m' ls)"

definition ignoreInit :: "(string \<Rightarrow> bool) \<Rightarrow> string \<Rightarrow> IgnoreManager \<times> InitResult" where
  "ignoreInit valid fileText =
     initLines valid \<lparr>m_ignores = [], m_includes = []\<rparr> (splitOn (CHR 0x0A) fileText)"

text \<open>\<open>ignored\<close>: the two nested loops.\<close>

fun keepLoop :: "(string \<Rightarrow> string \<Rightarrow> bool) \<Rightarrow> string \<Rightarrow> string list \<Rightarrow> bool" where
  "keepLoop exec filepath [] = False"
| "keepLoop exec filepath (incl # rest) =
     (if exec incl filepath then True else keepLoop exec filepath rest)"

fun ignoredLoop :: "(string \<Rightarrow> string \<Rightarrow> bool) \<Rightarrow> string list \<Rightarrow> string \<Rightarrow> string list \<Rightarrow> bool" where
  "ignoredLoop exec incl filepath [] = False"
| "ignoredLoop exec incl filepath (ignore # rest) =
     (if exec ignore filepath then
        (if keepLoop exec filepath incl then ignoredLoop exec incl filepath rest else True)
      else ignoredLoop exec incl filepath rest)"

definition ignored :: "(string \<Rightarrow> string \<Rightarrow> bool) \<Rightarrow> IgnoreManager \<Rightarrow> string \<Rightarrow> bool" where
  "ignored exec m filepath = ignoredLoop exec (m_includes m) filepath (m_ignores m)"

section \<open>Repository (repository.ts)\<close>

subsection \<open>Data\<close>

text \<open>
  Modelled from the spec: the classes \<open>Reference\<close>, \<open>Commit\<close>, \<open>TreeFile\<close>, \<open>TreeDir\<close> and
  \<open>Index\<close> are not among the source files. They are taken as the records of the data model
  (\<open>Reference\<close>: type, name, hash, start; \<open>Commit\<close>: hash, message, date, root, parents,
  tags, userData), \<open>ref.target()\<close> is the hash of the reference, and a tree is the list of
  its files, which is what \<open>getAllTreeFiles\<close> hands to the repository. A hash that is
  \<open>undefined\<close> or \<open>null\<close> is \<open>None\<close>.
\<close>

datatype REFERENCE_TYPE = BRANCH

record Reference =
  ref_type :: REFERENCE_TYPE
  ref_name :: string
  ref_hash :: "string option"
  ref_start :: "string option"

record TreeFile =
  tf_path :: string
  tf_hash :: string
  tf_size :: nat
  tf_mtime :: nat
  tf_ctime :: nat

record FileInfo =
  fi_hash :: string
  fi_size :: nat
  fi_atime :: nat
  fi_mtime :: nat
  fi_ctime :: nat

record Commit =
  c_hash :: string
  c_message :: string
  c_date :: nat
  c_root :: "TreeFile list"
  c_parent :: "string option list option"
  c_tags :: "string list"
  c_userData :: "(string \<times> string) list"

record Index =
  idx_id :: string
  addRelPaths :: "string list"
  deleteRelPaths :: "string list"
  processedMap :: "(string \<times> FileInfo) list"

record Repository =
  head :: Reference
  commits :: "Commit list"
  commitMap :: "(string \<times> Commit) list"
  references :: "Reference list"
  repoWorkDir :: string
  repoCommonDir :: string
  optionsCommondir :: "string option"
  repoIndexes :: "Index list"

record DirItem =
  di_path :: string
  di_isdir :: bool

record WalkFlags =
  walk_files :: bool
  walk_dirs :: bool
  walk_hidden :: bool
  walk_ignore_repos :: bool

record StatusEntry =
  se_path :: string
  se_status :: "nat option"
  se_isdir :: bool

record StatusResult =
  sr_success :: bool
  sr_error :: "string option"
  sr_value :: "StatusEntry list option"

datatype target = TargetString string | TargetReference Reference | TargetCommit Commit

datatype log_entry =
    LogInitialized string
  | LogCommit string
  | LogCheckout target string nat

datatype repo_error =
    InvalidCommitHash
  | HasNoParent
  | OutOfHistory
  | MoreThanOneRef
  | UnknownTargetVersion
  | NothingToCommit
  | CommondirInside
  | DeletedFileNotInCommit
  | JsTypeError
  | Rejected

text \<open>
  Everything the repository calls outside the source files (file system, object store,
  log, index, directory walk, trash helper, the \<open>Commit\<close> constructor's hash, Node's
  \<open>path.relative\<close>, the \<open>RegExp\<close> engine) is a field of the environment: what the call
  answers, and for a promise whether it resolves. \<open>putToTrash\<close> is a plain function
  returning a promise, so it can also throw before any promise exists.
\<close>

datatype outcome = Resolves | Rejects | Throws

record env =
  x_ioInit :: bool
  x_osWalk :: "string \<Rightarrow> WalkFlags \<Rightarrow> DirItem list option"
  x_relative :: "string \<Rightarrow> string \<Rightarrow> string"
  x_writeHeadReference :: "Reference \<Rightarrow> bool"
  x_putToTrash :: "string \<Rightarrow> outcome"
  x_readObject :: "string \<Rightarrow> string \<Rightarrow> bool"
  x_isFileModified :: "TreeFile \<Rightarrow> bool option"
  x_writeLog :: "log_entry \<Rightarrow> bool"
  x_pathExists :: "string \<Rightarrow> bool"
  x_readFile :: "string \<Rightarrow> string option"
  x_validRegExp :: "string \<Rightarrow> bool"
  x_regExpExec :: "string \<Rightarrow> string \<Rightarrow> bool"
  x_ensureDir :: "string \<Rightarrow> bool"
  x_writeFile :: "string \<Rightarrow> string \<Rightarrow> bool"
  x_odbCreate :: "string \<Rightarrow> bool"
  x_logInit :: bool
  x_indexWriteFiles :: bool
  x_indexInvalidate :: bool
  x_writeCommit :: "Commit \<Rightarrow> bool"
  x_writeReference :: "Reference \<Rightarrow> bool"
  x_commitHash :: "string \<Rightarrow> nat \<Rightarrow> TreeFile list \<Rightarrow> string option list \<Rightarrow> string"
  x_now :: nat

datatype event =
    EvIoInit
  | EvOsWalk string WalkFlags
  | EvWriteHeadReference Reference
  | EvPutToTrash string
  | EvReadObject string string
  | EvIsFileModified string
  | EvWriteLog log_entry
  | EvPathExists string
  | EvReadFile string
  | EvEnsureDir string
  | EvWriteFile string string
  | EvOdbCreate string
  | EvLogInit
  | EvIndexWriteFiles
  | EvIndexInvalidate
  | EvWriteCommit Commit
  | EvWriteReference Reference

text \<open>The flag enums; \<open>v & FLAG\<close> as a condition.\<close>

definition DELETE_MODIFIED_FILES :: nat where "DELETE_MODIFIED_FILES = 1"
definition DELETE_NEW_FILES :: nat where "DELETE_NEW_FILES = 2"
definition RESTORE_DELETED_FILES :: nat where "RESTORE_DELETED_FILES = 4"
definition DETACH :: nat where "DETACH = 8"
definition RESET_DEFAULT :: nat where "RESET_DEFAULT = 7"

definition INCLUDE_UNTRACKED :: nat where "INCLUDE_UNTRACKED = 1"
definition INCLUDE_IGNORED :: nat where "INCLUDE_IGNORED = 2"
definition INCLUDE_UNMODIFIED :: nat where "INCLUDE_UNMODIFIED = 4"
definition INCLUDE_DIRECTORIES :: nat where "INCLUDE_DIRECTORIES = 8"

definition STATUS_UNMODIFIED :: nat where "STATUS_UNMODIFIED = 0"
definition WT_NEW :: nat where "WT_NEW = 128"
definition WT_MODIFIED :: nat where "WT_MODIFIED = 256"
definition WT_DELETED :: nat where "WT_DELETED = 512"

definition hasFlag :: "nat \<Rightarrow> nat \<Rightarrow> bool" where
  "hasFlag v f = (v AND f \<noteq> 0)"

text \<open>A hash is falsy when it is \<open>undefined\<close>, \<open>null\<close> or the empty string.\<close>

definition truthy :: "string option \<Rightarrow> bool" where
  "truthy h = (case h of None \<Rightarrow> False | Some s \<Rightarrow> s \<noteq> [])"

text \<open>\<open>Map.get\<close> with a key that may be \<open>undefined\<close>, and \<open>Map.set\<close>.\<close>

definition mapGet :: "(string \<times> 'v) list \<Rightarrow> string option \<Rightarrow> 'v option" where
  "mapGet m k = (case k of None \<Rightarrow> None | Some h \<Rightarrow> map_of m h)"

fun mapSet :: "(string \<times> 'v) list \<Rightarrow> string \<Rightarrow> 'v \<Rightarrow> (string \<times> 'v) list" where
  "mapSet [] k v = [(k, v)]"
| "mapSet ((k', v') # m) k v = (if k' = k then (k, v) # m else (k', v') # mapSet m k v)"

text \<open>lodash's \<open>difference\<close> and \<open>intersection\<close> (the latter without repetitions).\<close>

definition difference :: "string list \<Rightarrow> string list \<Rightarrow> string list" where
  "difference a b = filter (\<lambda>v. v \<notin> set b) a"

fun uniq :: "string list \<Rightarrow> string list" where
  "uniq [] = []"
| "uniq (v # vs) = v # uniq (filter (\<lambda>w. w \<noteq> v) vs)"

definition intersection :: "string list \<Rightarrow> string list \<Rightarrow> string list" where
  "intersection a b = uniq (filter (\<lambda>v. v \<in> set b) a)"

definition getAllTreeFiles :: "TreeFile list \<Rightarrow> (string \<times> TreeFile) list" where
  "getAllTreeFiles files = fold (\<lambda>f m. mapSet m (tf_path f) f) files []"

subsection \<open>\<open>findCommitByHash\<close>\<close>

text \<open>
  \<open>parseInt(s, 10)\<close>: leading white space is skipped, a sign is read, then the longest run
  of decimal digits; \<open>NaN\<close> (here \<open>None\<close>) when there is no digit. Text after the digits
  is ignored. (Values are exact integers here; JavaScript rounds beyond \<open>2^53\<close> and
  gives \<open>Infinity\<close> for more than some 300 digits.)
\<close>

definition isDigit :: "char \<Rightarrow> bool" where
  "isDigit c = (48 \<le> (of_char c :: nat) \<and> (of_char c :: nat) \<le> 57)"

definition digitValue :: "char \<Rightarrow> nat" where
  "digitValue c = of_char c - 48"

definition parseInt10 :: "string \<Rightarrow> int option" where
  "parseInt10 s =
     (let t = dropWhile isStrWhiteSpace s;
          negative = (t \<noteq> [] \<and> hd t = CHR ''-'');
          u = (if t \<noteq> [] \<and> (hd t = CHR ''-'' \<or> hd t = CHR ''+'') then tl t else t);
          ds = takeWhile isDigit u
      in if ds = [] then None
         else (let n = int (foldl (\<lambda>a d. 10 * a + digitValue d) 0 ds)
               in Some (if negative then - n else n)))"

definition getHead :: "Repository \<Rightarrow> Reference" where
  "getHead repo = head repo"

text \<open>The inner loop \<open>for (let i = 0; i < iteration; ++i)\<close> with \<open>n\<close> rounds left.\<close>

fun walkParents :: "Repository \<Rightarrow> nat \<Rightarrow> Commit \<Rightarrow> repo_error + Commit" where
  "walkParents repo 0 commit = Inr commit"
| "walkParents repo (Suc n) commit =
     (case c_parent commit of
        None \<Rightarrow> Inl HasNoParent
      | Some [] \<Rightarrow> Inl HasNoParent
      | Some (p # ps) \<Rightarrow>
          (case mapGet (commitMap repo) p of
             None \<Rightarrow> Inl OutOfHistory
           | Some commit' \<Rightarrow> walkParents repo n commit'))"

text \<open>The loop over the pieces of \<open>hash.split('~')\<close>.\<close>

fun segmentLoop :: "Repository \<Rightarrow> string list \<Rightarrow> Commit option \<Rightarrow> repo_error + Commit option" where
  "segmentLoop repo [] commit = Inr commit"
| "segmentLoop repo (idx # rest) commit =
     (if idx = ''HEAD'' then
        segmentLoop repo rest (mapGet (commitMap repo) (ref_hash (getHead repo)))
      else
        (case commit of
           None \<Rightarrow> segmentLoop repo rest None
         | Some c \<Rightarrow>
             (case parseInt10 idx of
                None \<Rightarrow> Inl InvalidCommitHash
              | Some iteration \<Rightarrow>
                  (case walkParents repo (nat iteration) c of
                     Inl e \<Rightarrow> Inl e
                   | Inr c' \<Rightarrow> segmentLoop repo rest (Some c')))))"

definition findCommitByHash :: "Repository \<Rightarrow> string \<Rightarrow> repo_error + Commit option" where
  "findCommitByHash repo h =
     (let hashSplit = splitOn CHR ''~'' h
      in if length hashSplit > 1 then segmentLoop repo hashSplit None
         else Inr (map_of (commitMap repo) h))"

subsection \<open>\<open>checkout\<close>\<close>

definition findReferenceByName :: "Repository \<Rightarrow> REFERENCE_TYPE \<Rightarrow> string \<Rightarrow> Reference option" where
  "findReferenceByName repo ty refName =
     find (\<lambda>r. ref_name r = refName \<and> ref_type r = ty) (references repo)"

definition filterReferenceByHash :: "Repository \<Rightarrow> string \<Rightarrow> Reference list" where
  "filterReferenceByHash repo h = filter (\<lambda>r. ref_hash r = Some h) (references repo)"

text \<open>\<open>findCommitByHash(ref.target())\<close>: splitting an undefined hash is a type error.\<close>

definition findCommitOfReference :: "Repository \<Rightarrow> Reference \<Rightarrow> repo_error + Commit option" where
  "findCommitOfReference repo r =
     (case ref_hash r of None \<Rightarrow> Inl JsTypeError | Some h \<Rightarrow> findCommitByHash repo h)"

text \<open>
  The first part of \<open>checkout\<close>, up to \<open>throw new Error('unknown target version')\<close>: the
  reference (if one is chosen) and the commit the target stands for.
\<close>

definition resolveTarget :: "Repository \<Rightarrow> target \<Rightarrow> repo_error + (Reference option \<times> Commit)" where
  "resolveTarget repo tgt =
     (let r =
        (case tgt of
           TargetString t \<Rightarrow>
             (case findReferenceByName repo BRANCH t of
                Some ref \<Rightarrow>
                  (case findCommitOfReference repo ref of
                     Inl e \<Rightarrow> Inl e
                   | Inr c \<Rightarrow> Inr (Some ref, c))
              | None \<Rightarrow>
                  (let refs = filterReferenceByHash repo t
                   in if length refs = 0 then
                        (case findCommitByHash repo t of
                           Inl e \<Rightarrow> Inl e
                         | Inr c \<Rightarrow> Inr (None, c))
                      else if length refs > 1 then Inl MoreThanOneRef
                      else
                        (case findCommitOfReference repo (refs ! 0) of
                           Inl e \<Rightarrow> Inl e
                         | Inr c \<Rightarrow> Inr (Some (refs ! 0), c))))
         | TargetReference ref \<Rightarrow>
             (case findCommitOfReference repo ref of
                Inl e \<Rightarrow> Inl e
              | Inr c \<Rightarrow> Inr (Some ref, c))
         | TargetCommit commit \<Rightarrow>
             (let refs = filterReferenceByHash repo (c_hash commit)
              in Inr (if length refs = 1 then Some (refs ! 0) else None, Some commit)))
      in (case r of
            Inl e \<Rightarrow> Inl e
          | Inr (targetRef, None) \<Rightarrow> Inl UnknownTargetVersion
          | Inr (targetRef, Some targetCommit) \<Rightarrow> Inr (targetRef, targetCommit)))"

text \<open>
  A loop that starts one promise per element. The outcome of the whole is \<open>Throws\<close> as
  soon as a call throws (the loop stops there), else \<open>Rejects\<close> if a promise rejects
  (\<open>Promise.all\<close>), else \<open>Resolves\<close>.
\<close>

fun startAll :: "('a \<Rightarrow> event) \<Rightarrow> ('a \<Rightarrow> outcome) \<Rightarrow> 'a list \<Rightarrow> event list \<times> outcome" where
  "startAll ev oc [] = ([], Resolves)"
| "startAll ev oc (v # vs) =
     (case oc v of
        Throws \<Rightarrow> ([ev v], Throws)
      | r \<Rightarrow>
          (case startAll ev oc vs of
             (es, Throws) \<Rightarrow> (ev v # es, Throws)
           | (es, rs) \<Rightarrow> (ev v # es, if r = Rejects then Rejects else rs)))"

definition headAfterCheckout :: "Repository \<Rightarrow> Reference option \<Rightarrow> Commit \<Rightarrow> nat \<Rightarrow> Reference" where
  "headAfterCheckout repo targetRef targetCommit reset =
     (head repo)\<lparr>ref_hash := Some (c_hash targetCommit),
                 ref_name := (case targetRef of
                                None \<Rightarrow> ''HEAD''
                              | Some r \<Rightarrow> if hasFlag reset DETACH then ''HEAD'' else ref_name r)\<rparr>"

text \<open>
  The callbacks after the HEAD write: trash the new files and restore the deleted ones,
  find the modified ones, overwrite them, write the log. Each returns the calls it
  started, in order, and the error that ends the chain, if any.
\<close>

definition checkoutDeleteRestore ::
  "env \<Rightarrow> Repository \<Rightarrow> nat \<Rightarrow> string list \<Rightarrow> (string \<times> TreeFile) list \<Rightarrow> event list \<times> repo_error option" where
  "checkoutDeleteRestore x repo reset currentFiles oldFilesMap =
     (let oldFilePaths = map (\<lambda>(k, f). tf_path f) oldFilesMap;
          (es1, o1) =
            (if hasFlag reset DELETE_NEW_FILES then
               startAll EvPutToTrash (x_putToTrash x)
                 (map (\<lambda>newFile. posix_join [repoWorkDir repo, newFile]) (difference currentFiles oldFilePaths))
             else ([], Resolves))
      in if o1 = Throws then (es1, Some Rejected)
         else if hasFlag reset RESTORE_DELETED_FILES then
           (let deletedFiles = difference oldFilePaths currentFiles;
                found = takeWhile (\<lambda>deletedFile. map_of oldFilesMap deletedFile \<noteq> None) deletedFiles;
                reads = map (\<lambda>deletedFile. (tf_hash (the (map_of oldFilesMap deletedFile)),
                                              posix_join [repoWorkDir repo, deletedFile])) found;
                es2 = map (\<lambda>(h, dst). EvReadObject h dst) reads
            in if length found < length deletedFiles then (es1 @ es2, Some DeletedFileNotInCommit)
               else if o1 = Rejects \<or> (\<exists>(h, dst) \<in> set reads. \<not> x_readObject x h dst)
                 then (es1 @ es2, Some Rejected)
               else (es1 @ es2, None))
         else (es1, if o1 = Rejects then Some Rejected else None))"

definition checkoutModified ::
  "env \<Rightarrow> Repository \<Rightarrow> nat \<Rightarrow> string list \<Rightarrow> (string \<times> TreeFile) list \<Rightarrow> event list \<times> (repo_error + (TreeFile \<times> bool) list)" where
  "checkoutModified x repo reset currentFiles oldFilesMap =
     (if hasFlag reset DELETE_MODIFIED_FILES then
        (let oldFilePaths = map (\<lambda>(k, f). tf_path f) oldFilesMap;
             existingFiles = intersection currentFiles oldFilePaths
         in if \<exists>existingFile \<in> set existingFiles. map_of oldFilesMap existingFile = None then
              (map (\<lambda>existingFile. EvIsFileModified (tf_path (the (map_of oldFilesMap existingFile))))
                 (takeWhile (\<lambda>existingFile. map_of oldFilesMap existingFile \<noteq> None) existingFiles),
               Inl JsTypeError)
            else
              (let tfiles = map (\<lambda>existingFile. the (map_of oldFilesMap existingFile)) existingFiles
               in (map (\<lambda>f. EvIsFileModified (tf_path f)) tfiles,
                   if \<exists>f \<in> set tfiles. x_isFileModified x f = None then Inl Rejected
                   else Inr (map (\<lambda>f. (f, the (x_isFileModified x f))) tfiles))))
      else ([], Inr []))"

definition checkoutOverwrite ::
  "env \<Rightarrow> Repository \<Rightarrow> (TreeFile \<times> bool) list \<Rightarrow> event list \<times> repo_error option" where
  "checkoutOverwrite x repo modifiedFiles =
     (let dsts = map (\<lambda>(f, m). (tf_hash f, posix_join [repoWorkDir repo, tf_path f]))
                     (filter (\<lambda>(f, m). m) modifiedFiles)
      in (map (\<lambda>(h, dst). EvReadObject h dst) dsts,
          if \<exists>(h, dst) \<in> set dsts. \<not> x_readObject x h dst then Some Rejected else None))"

definition checkoutFiles ::
  "env \<Rightarrow> Repository \<Rightarrow> target \<Rightarrow> Commit \<Rightarrow> nat \<Rightarrow> DirItem list \<Rightarrow> (string \<times> TreeFile) list
     \<Rightarrow> event list \<times> repo_error option" where
  "checkoutFiles x repo tgt targetCommit reset items oldFilesMap =
     (let currentFiles = map (\<lambda>item. x_relative x (repoWorkDir repo) (di_path item)) items;
          (es1, r1) = checkoutDeleteRestore x repo reset currentFiles oldFilesMap
      in case r1 of
           Some e \<Rightarrow> (es1, Some e)
         | None \<Rightarrow>
             (let (es2, r2) = checkoutModified x repo reset currentFiles oldFilesMap
              in case r2 of
                   Inl e \<Rightarrow> (es1 @ es2, Some e)
                 | Inr modifiedFiles \<Rightarrow>
                     (let (es3, r3) = checkoutOverwrite x repo modifiedFiles
                      in case r3 of
                           Some e \<Rightarrow> (es1 @ es2 @ es3, Some e)
                         | None \<Rightarrow>
                             (let entry = LogCheckout tgt (c_hash targetCommit) reset
                              in (es1 @ es2 @ es3 @ [EvWriteLog entry],
                                  if x_writeLog x entry then None else Some Rejected)))))"

text \<open>
  \<open>checkout\<close>: the calls made, in the order the promise chain makes them, the repository
  object afterwards and the error the returned promise rejects with (\<open>None\<close>: it
  resolves). Before the first commit (\<open>head.hash\<close> falsy) the second callback returns
  early, \<open>items\<close> stays undefined and the next callback's loop over it is a type error.
\<close>

definition filesOnly :: WalkFlags where
  "filesOnly = \<lparr>walk_files = True, walk_dirs = False, walk_hidden = False, walk_ignore_repos = False\<rparr>"

definition checkout :: "env \<Rightarrow> Repository \<Rightarrow> target \<Rightarrow> nat \<Rightarrow> event list \<times> Repository \<times> repo_error option" where
  "checkout x repo tgt reset =
     (case resolveTarget repo tgt of
        Inl e \<Rightarrow> ([], repo, Some e)
      | Inr (targetRef, targetCommit) \<Rightarrow>
          if \<not> x_ioInit x then ([EvIoInit], repo, Some Rejected)
          else
            (case x_osWalk x (repoWorkDir repo) filesOnly of
               None \<Rightarrow> ([EvIoInit, EvOsWalk (repoWorkDir repo) filesOnly], repo, Some Rejected)
             | Some itemsResult \<Rightarrow>
                 if \<not> truthy (ref_hash (head repo)) then
                   ([EvIoInit, EvOsWalk (repoWorkDir repo) filesOnly], repo, Some JsTypeError)
                 else
                   (let oldFilesMap = getAllTreeFiles (c_root targetCommit);
                        newHead = headAfterCheckout repo targetRef targetCommit reset;
                        repo' = repo\<lparr>head := newHead\<rparr>;
                        es0 = [EvIoInit, EvOsWalk (repoWorkDir repo) filesOnly, EvWriteHeadReference newHead]
                    in if \<not> x_writeHeadReference x newHead then (es0, repo', Some Rejected)
                       else
                         (let (es, r) = checkoutFiles x repo' tgt targetCommit reset itemsResult oldFilesMap
                          in (es0 @ es, repo', r)))))"

subsection \<open>\<open>getStatus\<close>\<close>

definition getCommitByHead :: "Repository \<Rightarrow> Commit option" where
  "getCommitByHead repo = mapGet (commitMap repo) (ref_hash (head repo))"

definition notIgnored :: "env \<Rightarrow> IgnoreManager option \<Rightarrow> string \<Rightarrow> bool" where
  "notIgnored x ignore filepath =
     (case ignore of None \<Rightarrow> True | Some m \<Rightarrow> \<not> ignored (x_regExpExec x) m filepath)"

text \<open>The two callbacks that follow the directory walk.\<close>

definition statusOfWalk ::
  "env \<Rightarrow> Repository \<Rightarrow> nat \<Rightarrow> IgnoreManager option \<Rightarrow> DirItem list
     \<Rightarrow> event list \<times> (repo_error + StatusEntry list \<times> (TreeFile \<times> bool) list)" where
  "statusOfWalk x repo flt ignore items =
     (if \<not> truthy (ref_hash (head repo)) then ([], Inr ([], []))
      else
        (let rel = (\<lambda>item. replaceBackslashes (x_relative x (repoWorkDir repo) (di_path item)));
             dirEntries = (if hasFlag flt INCLUDE_DIRECTORIES
                           then map (\<lambda>item. \<lparr>se_path = rel item, se_status = None, se_isdir = True\<rparr>)
                                    (filter di_isdir items)
                           else []);
             currentFiles = map rel (filter (\<lambda>item. \<not> di_isdir item) items);
             oldFilesMap = (case getCommitByHead repo of
                              None \<Rightarrow> []
                            | Some currentCommit \<Rightarrow> getAllTreeFiles (c_root currentCommit));
             oldFilePaths = map (\<lambda>(k, f). tf_path f) oldFilesMap;
             newEntries = (if hasFlag flt INCLUDE_UNTRACKED
                           then map (\<lambda>newFile. \<lparr>se_path = newFile, se_status = Some WT_NEW, se_isdir = False\<rparr>)
                                    (filter (notIgnored x ignore) (difference currentFiles oldFilePaths))
                           else []);
             deletedEntries = map (\<lambda>deletedFile. \<lparr>se_path = deletedFile, se_status = Some WT_DELETED, se_isdir = False\<rparr>)
                                  (filter (notIgnored x ignore) (difference oldFilePaths currentFiles));
             statusResult = dirEntries @ newEntries @ deletedEntries;
             existingFiles = intersection currentFiles oldFilePaths
         in if \<exists>existingFile \<in> set existingFiles. map_of oldFilesMap existingFile = None then
              (map (\<lambda>existingFile. EvIsFileModified (tf_path (the (map_of oldFilesMap existingFile))))
                 (takeWhile (\<lambda>existingFile. map_of oldFilesMap existingFile \<noteq> None) existingFiles),
               Inl JsTypeError)
            else
              (let tfiles = map (\<lambda>existingFile. the (map_of oldFilesMap existingFile)) existingFiles
               in (map (\<lambda>f. EvIsFileModified (tf_path f)) tfiles,
                   if \<exists>f \<in> set tfiles. x_isFileModified x f = None then Inl Rejected
                   else Inr (statusResult, map (\<lambda>f. (f, the (x_isFileModified x f))) tfiles)))))"

definition statusOfExisting ::
  "env \<Rightarrow> nat \<Rightarrow> IgnoreManager option \<Rightarrow> (TreeFile \<times> bool) list \<Rightarrow> StatusEntry list" where
  "statusOfExisting x flt ignore existingFiles =
     concat (map (\<lambda>(f, modified).
                    if modified then
                      (if notIgnored x ignore (tf_path f)
                       then [\<lparr>se_path = tf_path f, se_status = Some WT_MODIFIED, se_isdir = False\<rparr>]
                       else [])
                    else if hasFlag flt INCLUDE_UNMODIFIED
                      then [\<lparr>se_path = tf_path f, se_status = Some STATUS_UNMODIFIED, se_isdir = False\<rparr>]
                    else [])
                 existingFiles)"

text \<open>
  \<open>getStatus\<close>. The awaited value \<open>s\<close> is the result of \<open>ignore.init\<close> when the file
  \<open><workdir>/ignore\<close> exists, and \<open>undefined\<close> (here \<open>None\<close>) when it does not, because
  the callback then returns nothing; \<open>s.success\<close> is read next. A missing \<open>filter\<close>
  behaves as \<open>0\<close> in every \<open>filter & FLAG\<close>.
\<close>

definition getStatus :: "env \<Rightarrow> Repository \<Rightarrow> nat \<Rightarrow> event list \<times> (repo_error + StatusResult)" where
  "getStatus x repo flt =
     (let snowtrackIgnoreDefault = posix_join [repoWorkDir repo, ''ignore''];
          es0 = [EvPathExists snowtrackIgnoreDefault]
      in if x_pathExists x snowtrackIgnoreDefault then
           (case x_readFile x snowtrackIgnoreDefault of
              None \<Rightarrow> (es0 @ [EvReadFile snowtrackIgnoreDefault], Inl Rejected)
            | Some fileText \<Rightarrow>
                (let (ignore, s) = ignoreInit (x_validRegExp x) fileText;
                     es1 = es0 @ [EvReadFile snowtrackIgnoreDefault]
                 in if \<not> success s then
                      (es1, Inr \<lparr>sr_success = success s, sr_error = Some (errorText s), sr_value = None\<rparr>)
                    else
                      (let walk = \<lparr>walk_files = True,
                                   walk_dirs = hasFlag flt INCLUDE_DIRECTORIES,
                                   walk_hidden = hasFlag flt INCLUDE_IGNORED,
                                   walk_ignore_repos = True\<rparr>;
                           es2 = es1 @ [EvOsWalk (repoWorkDir repo) walk]
                       in case x_osWalk x (repoWorkDir repo) walk of
                            None \<Rightarrow> (es2, Inl Rejected)
                          | Some items \<Rightarrow>
                              (case statusOfWalk x repo flt (Some ignore) items of
                                 (es3, Inl e) \<Rightarrow> (es2 @ es3, Inl e)
                               | (es3, Inr (statusResult, existingFiles)) \<Rightarrow>
                                   (es2 @ es3,
                                    Inr \<lparr>sr_success = True, sr_error = None,
                                         sr_value = Some (statusResult
                                                          @ statusOfExisting x flt (Some ignore) existingFiles)\<rparr>)))))
         else (es0, Inl JsTypeError))"

subsection \<open>\<open>createCommit\<close>\<close>

text \<open>
  Modelled from the spec: \<open>constructTree\<close> and \<open>TreeDir.remove\<close> are not among the source
  files. The tree built from \<open>processedMap\<close> holds one file per entry, with the entry's
  hash and stats, and \<open>remove(relPath)\<close> takes the file of that path out of it.
\<close>

definition constructTree :: "string \<Rightarrow> (string \<times> FileInfo) list \<Rightarrow> TreeFile list" where
  "constructTree workdir pm =
     map (\<lambda>(p, info). \<lparr>tf_path = p, tf_hash = fi_hash info, tf_size = fi_size info,
                         tf_mtime = fi_mtime info, tf_ctime = fi_ctime info\<rparr>) pm"

definition treeRemove :: "TreeFile list \<Rightarrow> string \<Rightarrow> TreeFile list" where
  "treeRemove tree relPath = filter (\<lambda>f. tf_path f \<noteq> relPath) tree"

definition emptyIndex :: Index where
  "emptyIndex = \<lparr>idx_id = [], addRelPaths = [], deleteRelPaths = [], processedMap = []\<rparr>"

text \<open>
  The in-memory part of the second callback of \<open>createCommit\<close>: the commit is appended
  and registered, and HEAD is moved; on the very first commit HEAD is renamed to \<open>Main\<close>
  and a reference of that name is pushed.
\<close>

definition registerCommit :: "Repository \<Rightarrow> Commit \<Rightarrow> Repository" where
  "registerCommit repo commit =
     (let repo1 = repo\<lparr>commits := commits repo @ [commit],
                        commitMap := mapSet (commitMap repo) (c_hash commit) commit\<rparr>
      in if truthy (ref_hash (head repo1)) then
           repo1\<lparr>head := (head repo1)\<lparr>ref_hash := Some (c_hash commit)\<rparr>\<rparr>
         else
           (let h = (head repo1)\<lparr>ref_name := ''Main'', ref_hash := Some (c_hash commit)\<rparr>
            in repo1\<lparr>head := h,
                     references := references repo1
                       @ [\<lparr>ref_type = BRANCH, ref_name = ref_name h,
                           ref_hash = Some (c_hash commit), ref_start = Some (c_hash commit)\<rparr>]\<rparr>))"

text \<open>The four writes that follow, in the order of the chain.\<close>

definition persistCommit :: "env \<Rightarrow> Repository \<Rightarrow> Commit \<Rightarrow> string \<Rightarrow> event list \<times> Repository \<times> (repo_error + Commit)" where
  "persistCommit x repo commit message =
     (if \<not> x_writeCommit x commit then ([EvWriteCommit commit], repo, Inl Rejected)
      else
        (let repo' = repo\<lparr>head := (head repo)\<lparr>ref_hash := Some (c_hash commit)\<rparr>\<rparr>;
             h = head repo'
         in if \<not> x_writeHeadReference x h then
              ([EvWriteCommit commit, EvWriteHeadReference h], repo', Inl Rejected)
            else if \<not> x_writeReference x h then
              ([EvWriteCommit commit, EvWriteHeadReference h, EvWriteReference h], repo', Inl Rejected)
            else
              ([EvWriteCommit commit, EvWriteHeadReference h, EvWriteReference h, EvWriteLog (LogCommit message)],
               repo',
               if x_writeLog x (LogCommit message) then Inr commit else Inl Rejected)))"

text \<open>
  The statements of \<open>createCommit\<close> before the first promise: the index that is used
  (a fresh one when none is passed and empty commits are allowed), the processed map
  overlaid with the files of the HEAD commit, and the commit object.
\<close>

definition commitIndex :: "env \<Rightarrow> Index option \<Rightarrow> bool \<Rightarrow> event list \<times> (repo_error + Index)" where
  "commitIndex x index0 allowEmpty =
     (if allowEmpty then
        (case index0 of
           None \<Rightarrow> if x_indexWriteFiles x then ([EvIndexWriteFiles], Inr emptyIndex)
                    else ([EvIndexWriteFiles], Inl Rejected)
         | Some i \<Rightarrow> ([], Inr i))
      else
        (case index0 of
           None \<Rightarrow> ([], Inl JsTypeError)
         | Some i \<Rightarrow>
             if length (addRelPaths i) = 0 \<and> length (deleteRelPaths i) = 0
             then ([], Inl NothingToCommit) else ([], Inr i)))"

definition overlayHeadTree :: "Repository \<Rightarrow> Index \<Rightarrow> repo_error + (string \<times> FileInfo) list" where
  "overlayHeadTree repo index =
     (if truthy (ref_hash (head repo)) then
        (case getCommitByHead repo of
           None \<Rightarrow> Inl JsTypeError
         | Some headCommit \<Rightarrow>
             Inr (fold (\<lambda>(k, f) pm. mapSet pm (tf_path f)
                           \<lparr>fi_hash = tf_hash f, fi_size = tf_size f, fi_atime = 0,
                            fi_mtime = tf_mtime f, fi_ctime = tf_ctime f\<rparr>)
                       (getAllTreeFiles (c_root headCommit)) (processedMap index)))
      else Inr (processedMap index))"

definition newCommit ::
  "env \<Rightarrow> Repository \<Rightarrow> Index \<Rightarrow> (string \<times> FileInfo) list \<Rightarrow> string \<Rightarrow> string list \<Rightarrow> (string \<times> string) list \<Rightarrow> Commit" where
  "newCommit x repo index pm message tags userData =
     (let tree = fold (\<lambda>relPath t. treeRemove t relPath) (deleteRelPaths index)
                      (constructTree (repoWorkDir repo) pm);
          parents = [ref_hash (head repo)]
      in \<lparr>c_hash = x_commitHash x message (x_now x) tree parents,
          c_message = message, c_date = x_now x, c_root = tree,
          c_parent = Some parents, c_tags = tags, c_userData = userData\<rparr>)"

definition createCommit ::
  "env \<Rightarrow> Repository \<Rightarrow> Index option \<Rightarrow> string \<Rightarrow> bool \<Rightarrow> string list \<Rightarrow> (string \<times> string) list
     \<Rightarrow> event list \<times> Repository \<times> (repo_error + Commit)" where
  "createCommit x repo index0 message allowEmpty tags userData =
     (case commitIndex x index0 allowEmpty of
        (es0, Inl e) \<Rightarrow> (es0, repo, Inl e)
      | (es0, Inr index) \<Rightarrow>
          (case overlayHeadTree repo index of
             Inl e \<Rightarrow> (es0, repo, Inl e)
           | Inr pm \<Rightarrow>
               if \<not> x_indexInvalidate x then (es0 @ [EvIndexInvalidate], repo, Inl Rejected)
               else
                 (let commit = newCommit x repo index pm message tags userData;
                      (es2, repo', r) = persistCommit x (registerCommit repo commit) commit message
                  in (es0 @ [EvIndexInvalidate] @ es2, repo', r))))"

subsection \<open>\<open>initExt\<close>\<close>

definition newRepository :: Repository where
  "newRepository =
     \<lparr>head = \<lparr>ref_type = BRANCH, ref_name = ''HEAD'', ref_hash = None, ref_start = None\<rparr>,
      commits = [], commitMap = [], references = [],
      repoWorkDir = [], repoCommonDir = [], optionsCommondir = None, repoIndexes = []\<rparr>"

definition getFirstIndex :: "Repository \<Rightarrow> Index option" where
  "getFirstIndex repo = (if length (repoIndexes repo) > 0 then Some (repoIndexes repo ! 0) else None)"

text \<open>
  \<open>initExt\<close>: the calls made, the value of \<open>opts.commondir\<close> afterwards, and the
  repository or the error. The check at the top throws before anything is called.
\<close>

definition initExt :: "env \<Rightarrow> string \<Rightarrow> string option \<Rightarrow> event list \<times> string option \<times> (repo_error + Repository)" where
  "initExt x workdir optsCommondir =
     (if truthy optsCommondir
         \<and> startsWith (properNormalize (the optsCommondir)) (properNormalize workdir)
      then ([], optsCommondir, Inl CommondirInside)
      else
        (let commondirOutside = truthy optsCommondir;
             commondir = (if commondirOutside then the optsCommondir else posix_join [workdir, ''.snow'']);
             es0 = [EvEnsureDir workdir]
         in if \<not> x_ensureDir x workdir then (es0, Some commondir, Inl Rejected)
            else
              (let snowtrackFile = posix_join [workdir, ''.snow''];
                   es1 = es0 @ (if commondirOutside then [EvWriteFile snowtrackFile commondir] else [])
               in if commondirOutside \<and> \<not> x_writeFile x snowtrackFile commondir
                    then (es1, Some commondir, Inl Rejected)
                  else if \<not> x_odbCreate x commondir
                    then (es1 @ [EvOdbCreate commondir], Some commondir, Inl Rejected)
                  else
                    (let repo = newRepository\<lparr>optionsCommondir := Some commondir, repoWorkDir := workdir,
                                              repoCommonDir := commondir, repoIndexes := []\<rparr>;
                         es2 = es1 @ [EvOdbCreate commondir, EvLogInit]
                     in if \<not> x_logInit x then (es2, Some commondir, Inl Rejected)
                        else if \<not> x_writeLog x (LogInitialized workdir)
                          then (es2 @ [EvWriteLog (LogInitialized workdir)], Some commondir, Inl Rejected)
                        else
                          (case createCommit x repo (getFirstIndex repo) ''Created Project'' True [] [] of
                             (es3, repo', Inl e) \<Rightarrow>
                               (es2 @ [EvWriteLog (LogInitialized workdir)] @ es3, Some commondir, Inl e)
                           | (es3, repo', Inr c) \<Rightarrow>
                               (es2 @ [EvWriteLog (LogInitialized workdir)] @ es3, Some commondir, Inr repo'))))))"

section \<open>Notions used to state the properties, and example inputs\<close>









text \<open>
  A repository with two commits on \<open>Main\<close>, as left by \<open>initExt\<close> and one further commit,
  and the same with a second reference at the same commit.
\<close>

definition commit1 :: Commit where
  "commit1 = \<lparr>c_hash = ''c1'', c_message = ''Created Project'', c_date = 0, c_root = [],
               c_parent = Some [None], c_tags = [], c_userData = []\<rparr>"

definition fileA :: TreeFile where
  "fileA = \<lparr>tf_path = ''a.txt'', tf_hash = ''ha'', tf_size = 2, tf_mtime = 1, tf_ctime = 1\<rparr>"

definition commit2 :: Commit where
  "commit2 = \<lparr>c_hash = ''c2'', c_message = ''second'', c_date = 1, c_root = [fileA],
               c_parent = Some [Some ''c1''], c_tags = [], c_userData = []\<rparr>"

definition mainRef :: Reference where
  "mainRef = \<lparr>ref_type = BRANCH, ref_name = ''Main'', ref_hash = Some ''c2'', ref_start = Some ''c1''\<rparr>"

definition featRef :: Reference where
  "featRef = \<lparr>ref_type = BRANCH, ref_name = ''feat'', ref_hash = Some ''c2'', ref_start = Some ''c2''\<rparr>"

definition twoCommitRepo :: Repository where
  "twoCommitRepo =
     \<lparr>head = mainRef, commits = [commit1, commit2],
      commitMap = [(''c1'', commit1), (''c2'', commit2)],
      references = [mainRef],
      repoWorkDir = ''/w'', repoCommonDir = ''/w/.snow'', optionsCommondir = Some ''/w/.snow'',
      repoIndexes = []\<rparr>"

definition exampleIndex :: Index where
  "exampleIndex = emptyIndex\<lparr>addRelPaths := [''b.txt'']\<rparr>"

definition twoRefRepo :: Repository where
  "twoRefRepo = twoCommitRepo\<lparr>references := [mainRef, featRef]\<rparr>"

text \<open>
  An environment in which every outside call succeeds: the working tree holds
  \<open>/w/a.txt\<close> and \<open>/w/new.txt\<close>, no file is modified, there is no ignore file, and a
  regular expression without special characters matches where it occurs in the subject.
\<close>

fun occursIn :: "string \<Rightarrow> string \<Rightarrow> bool" where
  "occursIn pat [] = (pat = [])"
| "occursIn pat (c # cs) = (prefix pat (c # cs) \<or> occursIn pat cs)"

definition okEnv :: env where
  "okEnv =
     \<lparr>x_ioInit = True,
      x_osWalk = (\<lambda>dir flags. Some [\<lparr>di_path = ''/w/a.txt'', di_isdir = False\<rparr>,
                                     \<lparr>di_path = ''/w/new.txt'', di_isdir = False\<rparr>]),
      x_relative = (\<lambda>from to. drop (length from + 1) to),
      x_writeHeadReference = (\<lambda>r. True),
      x_putToTrash = (\<lambda>p. Resolves),
      x_readObject = (\<lambda>h dst. True),
      x_isFileModified = (\<lambda>f. Some False),
      x_writeLog = (\<lambda>e. True),
      x_pathExists = (\<lambda>p. False),
      x_readFile = (\<lambda>p. None),
      x_validRegExp = (\<lambda>s. True),
      x_regExpExec = occursIn,
      x_ensureDir = (\<lambda>p. True),
      x_writeFile = (\<lambda>p c. True),
      x_odbCreate = (\<lambda>p. True),
      x_logInit = True,
      x_indexWriteFiles = True,
      x_indexInvalidate = True,
      x_writeCommit = (\<lambda>c. True),
      x_writeReference = (\<lambda>r. True),
      x_commitHash = (\<lambda>message date tree parents. ''commit-'' @ message),
      x_now = 2\<rparr>"

section \<open>Notions used to state and prove the properties of the path utility\<close>

text \<open>
  A path read as segments: \<open>pieces\<close> scans the characters and keeps the segments closed by
  a \<open>/\<close> and the one still open; \<open>segments\<close> is all of them, which is
  \<open>path.split('/')\<close>. \<open>segStep\<close> is what one segment does to the list of segments kept so
  far (\<open>.\<close> and the empty segment are dropped, \<open>..\<close> removes the last kept segment or is
  kept itself above a relative path), and \<open>joinSegs\<close> puts \<open>/\<close> between the segments. The
  remaining definitions describe the state of the loop of \<open>normalizeString\<close> after \<open>i\<close>
  characters and the shape of its result.
\<close>

definition pieceStep :: "string list \<times> string \<Rightarrow> char \<Rightarrow> string list \<times> string" where
  "pieceStep dc c = (if c = CHR ''/'' then (fst dc @ [snd dc], []) else (fst dc, snd dc @ [c]))"

definition pieces :: "string \<Rightarrow> string list \<times> string" where
  "pieces p = foldl pieceStep ([], []) p"

definition segments :: "string \<Rightarrow> string list" where
  "segments p = fst (pieces p) @ [snd (pieces p)]"

definition segStep :: "bool \<Rightarrow> string list \<Rightarrow> string \<Rightarrow> string list" where
  "segStep aar stk seg =
     (if seg = [] \<or> seg = ''.'' then stk
      else if seg = ''..'' then
        (if stk \<noteq> [] \<and> last stk \<noteq> ''..'' then butlast stk
         else if aar then stk @ [''..''] else stk)
      else stk @ [seg])"

fun joinSegs :: "string list \<Rightarrow> string" where
  "joinSegs [] = []"
| "joinSegs [s] = s"
| "joinSegs (s # t # r) = s @ ''/'' @ joinSegs (t # r)"

definition dotCount :: "string \<Rightarrow> int" where
  "dotCount cur = (if \<forall>c \<in> set cur. c = CHR ''.'' then int (length cur) else - 1)"

definition stackOK :: "string list \<Rightarrow> bool" where
  "stackOK stk = (\<forall>s \<in> set stk. s \<noteq> [] \<and> CHR ''/'' \<notin> set s)"

definition lastLen :: "string list \<Rightarrow> int" where
  "lastLen stk = (if stk = [] then 0 else int (length (last stk)))"

definition nsInv :: "bool \<Rightarrow> string \<Rightarrow> nat \<Rightarrow> ns_state \<Rightarrow> bool" where
  "nsInv aar path i st =
     (let d = fst (pieces (take i path)); cur = snd (pieces (take i path));
          stk = foldl (segStep aar) [] d
      in res st = joinSegs stk \<and> lastSegmentLength st = lastLen stk
         \<and> lastSlash st = int i - 1 - int (length cur) \<and> dots st = dotCount cur
         \<and> stackOK stk \<and> (0 < i \<longrightarrow> code st = path ! (i - 1)))"

definition nsRun :: "bool \<Rightarrow> string \<Rightarrow> nat \<Rightarrow> ns_state" where
  "nsRun aar path n = fold (\<lambda>i st. ns_body aar path i (st\<lparr>code := path ! i\<rparr>)) [0..<n] ns_init"

definition okSeg :: "string \<Rightarrow> bool" where
  "okSeg s = (s \<noteq> [] \<and> s \<noteq> ''.'' \<and> s \<noteq> ''..'' \<and> CHR ''/'' \<notin> set s)"

definition stackNF :: "bool \<Rightarrow> string list \<Rightarrow> bool" where
  "stackNF aar stk =
     (\<exists>k ns. stk = replicate k ''..'' @ ns \<and> (\<not> aar \<longrightarrow> k = 0) \<and> (\<forall>s \<in> set ns. okSeg s))"

definition isAbs :: "string \<Rightarrow> bool" where
  "isAbs p = (p \<noteq> [] \<and> hd p = CHR ''/'')"

definition trailing :: "string \<Rightarrow> bool" where
  "trailing p = (p \<noteq> [] \<and> last p = CHR ''/'')"

definition stackOf :: "string \<Rightarrow> string list" where
  "stackOf p = foldl (segStep (\<not> isAbs p)) [] (segments p)"

definition examplePath :: string where
  "examplePath = ''/Users/snowtrack/Desktop/../foo/''"

section \<open>Properties of the hasher\<close>

lemma concat_chunks: "concat (chunks hwm xs) = xs"
proof (induction hwm xs rule: chunks.induct)
  case (1 hwm xs)
  show ?case
  proof (cases "xs = [] \<or> hwm = 0")
    case True
    then show ?thesis by (subst chunks.simps) auto
  next
    case False
    with "1" have "concat (chunks hwm (drop hwm xs)) = drop hwm xs" by simp
    with False show ?thesis by (subst chunks.simps) simp
  qed
qed

lemma fold_update: "fold (\<lambda>d h. update h d) ds acc = acc @ concat ds"
  by (induction ds arbitrary: acc) (simp_all add: update_def)

lemma getPartHash_whole:
  assumes "fs filepath = Some content"
  shows "getPartHash sha fs filepath noOptions = Inr \<lparr>hb_hash = sha content, hb_start = - 1, hb_end = - 1\<rparr>"
  using assms
  by (simp add: getPartHash_def createReadStream_def noOptions_def fold_update concat_chunks
      createHash_def digest_def optOrMinus1_def)

lemma getPartHash_range:
  assumes "fs filepath = Some content" and "fst b \<le> snd b"
  shows "getPartHash sha fs filepath (blockOptions b) =
         Inr \<lparr>hb_hash = sha (take (snd b + 1 - fst b) (drop (fst b) content)),
              hb_start = int (fst b), hb_end = int (snd b)\<rparr>"
  using assms
  by (simp add: getPartHash_def createReadStream_def blockOptions_def fold_update concat_chunks
      createHash_def digest_def optOrMinus1_def Let_def)

lemma promiseAll_Inr: "promiseAll (map Inr vs) = Inr vs"
  by (induction vs) simp_all

lemma divider_pos: "0 < sz \<Longrightarrow> 0 < divider_of sz"
  by (simp add: divider_of_def MB100_def)

lemma divider_bound: "0 < sz \<Longrightarrow> (divider_of sz - 1) * MB100 < sz"
proof -
  assume sz: "0 < sz"
  have "divider_of sz * MB100 \<le> sz + MB100 - 1"
    unfolding divider_of_def by (rule div_times_less_eq_dividend)
  then have "divider_of sz * MB100 - MB100 \<le> sz - 1" by simp
  then have "(divider_of sz - 1) * MB100 \<le> sz - 1" by (simp add: diff_mult_distrib)
  with sz show ?thesis by simp
qed

lemma le_min_pred: "(a::nat) < m \<Longrightarrow> a < s \<Longrightarrow> a \<le> min m s - 1"
  by arith

lemma blockTable_ordered:
  assumes "blockTable sz = Inr blocks" and "0 < sz" and "b \<in> set blocks"
  shows "fst b \<le> snd b"
proof -
  let ?d = "divider_of sz"
  let ?bs = "map (\<lambda>i. (i * MB100, (i + 1) * MB100 - 1)) [0..<?d]"
  have d: "0 < ?d" using assms(2) by (rule divider_pos)
  from assms(1) d have blocks: "blocks = ?bs[?d - 1 := (fst (?bs ! (?d - 1)), min (MB100 * ?d) sz - 1)]"
    by (simp add: blockTable_def Let_def)
  from assms(3) obtain i where i: "i < length blocks" "b = blocks ! i"
    by (auto simp: in_set_conv_nth)
  have len: "length blocks = ?d" by (simp add: blocks)
  show ?thesis
  proof (cases "i = ?d - 1")
    case True
    with i len d have "b = ((?d - 1) * MB100, min (MB100 * ?d) sz - 1)"
      by (simp add: blocks)
    moreover have "(?d - 1) * MB100 < sz" using assms(2) by (rule divider_bound)
    moreover have "(?d - 1) * MB100 < MB100 * ?d" using d by (simp add: MB100_def algebra_simps)
    ultimately show ?thesis using le_min_pred [of "(?d - 1) * MB100" "MB100 * ?d" sz] by simp
  next
    case False
    with i len have "b = (i * MB100, (i + 1) * MB100 - 1)"
      by (simp add: blocks)
    then show ?thesis by (simp add: MB100_def)
  qed
qed


lemma fold_update_hashes:
  "fold (\<lambda>h acc. update acc (f h)) hs acc = acc @ concat (map f hs)"
  by (induction hs arbitrary: acc) (simp_all add: update_def)

lemma blockTable_Inr: "0 < sz \<Longrightarrow> \<exists>blocks. blockTable sz = Inr blocks \<and> length blocks = divider_of sz"
  using divider_pos [of sz] by (simp add: blockTable_def Let_def)

lemma getPartHash_blocks:
  assumes "fs filepath = Some content" and "blockTable (length content) = Inr blocks"
    and "0 < length content"
  shows "map (\<lambda>b. getPartHash sha fs filepath (blockOptions b)) blocks
         = map Inr (map (blockHash sha content) blocks)"
  using assms blockTable_ordered [OF assms(2) assms(3)]
  by (simp add: getPartHash_range blockHash_def)

lemma calculateFileHash_large:
  assumes "fs filepath = Some content" and "MB20 \<le> length content"
    and "blockTable (length content) = Inr blocks"
  shows "calculateFileHash sha fs filepath =
         Inr \<lparr>filehash = sha (concat (map (\<lambda>b. hb_hash (blockHash sha content b)) blocks)),
              hashBlocks = Some (map (blockHash sha content) blocks)\<rparr>"
proof -
  have pos: "0 < length content" using assms(2) by (auto simp: MB20_def)
  have "promiseAll (map (\<lambda>b. getPartHash sha fs filepath (blockOptions b)) blocks)
        = Inr (map (blockHash sha content) blocks)"
    by (simp only: getPartHash_blocks [where fs = fs and filepath = filepath, OF assms(1) assms(3) pos] promiseAll_Inr)
  with assms show ?thesis
    by (simp add: calculateFileHash_def fold_update_hashes digest_def createHash_def comp_def)
qed

lemma checked_blocks:
  assumes "fs filepath = Some content" and "blockTable (length content) = Inr blocks"
    and "0 < length content"
  shows "map (\<lambda>(i, b). checkBlock (Some (map (\<lambda>b. hb_hash (blockHash sha content b)) blocks)) i
                          (getPartHash sha fs filepath (blockOptions b)))
             (zip [0..<length blocks] blocks)
         = map Inr (map (blockHash sha content) blocks)"
proof (rule nth_equalityI)
  show "length (map (\<lambda>(i, b). checkBlock (Some (map (\<lambda>b. hb_hash (blockHash sha content b)) blocks)) i
                          (getPartHash sha fs filepath (blockOptions b)))
             (zip [0..<length blocks] blocks)) = length (map Inr (map (blockHash sha content) blocks))"
    by simp
next
  fix i
  assume "i < length (map (\<lambda>(i, b). checkBlock (Some (map (\<lambda>b. hb_hash (blockHash sha content b)) blocks)) i
                          (getPartHash sha fs filepath (blockOptions b)))
             (zip [0..<length blocks] blocks))"
  then have i: "i < length blocks" by simp
  then have "blocks ! i \<in> set blocks" by simp
  then have "fst (blocks ! i) \<le> snd (blocks ! i)"
    by (rule blockTable_ordered [OF assms(2) assms(3)])
  then have "getPartHash sha fs filepath (blockOptions (blocks ! i)) = Inr (blockHash sha content (blocks ! i))"
    using assms(1) by (simp add: getPartHash_range blockHash_def)
  with i show "map (\<lambda>(i, b). checkBlock (Some (map (\<lambda>b. hb_hash (blockHash sha content b)) blocks)) i
                          (getPartHash sha fs filepath (blockOptions b)))
             (zip [0..<length blocks] blocks) ! i = map Inr (map (blockHash sha content) blocks) ! i"
    by (simp add: checkBlock_def)
qed

lemma compareFileHash_large:
  assumes "fs filepath = Some content" and "MB20 \<le> length content"
    and "blockTable (length content) = Inr blocks"
  shows "compareFileHash sha fs filepath expectedHash
           (Some (map (\<lambda>b. hb_hash (blockHash sha content b)) blocks))
         = Inr (expectedHash = sha (concat (replicate (length blocks) ''[object Object]'')))"
proof -
  have pos: "0 < length content" using assms(2) by (auto simp: MB20_def)
  have c: "concat (map (objectToString \<circ> g) bs) = concat (replicate (length bs) ''[object Object]'')"
    for g :: "nat \<times> nat \<Rightarrow> HashBlock" and bs
    by (induction bs) (simp_all add: objectToString_def)
  have "promiseAll (map (\<lambda>(i, b). checkBlock (Some (map (\<lambda>b. hb_hash (blockHash sha content b)) blocks)) i
                          (getPartHash sha fs filepath (blockOptions b)))
             (zip [0..<length blocks] blocks))
        = Inr (map (blockHash sha content) blocks)"
    by (simp only: checked_blocks [where fs = fs and filepath = filepath, OF assms(1) assms(3) pos] promiseAll_Inr)
  with assms show ?thesis
    by (simp add: compareFileHash_def fold_update_hashes digest_def createHash_def c)
qed

lemma blockTable_big: "blockTable (length bigContent) = Inr [(0, 19999999)]"
  by (simp add: bigContent_def blockTable_def divider_of_def MB100_def)

text \<open>
  Claim C1 (round trip \<open>compareFileHash(f, hashFile(f).filehash, hashFile(f).hashBlocks)\<close>).
  On the file of 20,000,000 zero bytes, \<open>calculateFileHash\<close> returns one block and the
  digest of that block's hash, and \<open>compareFileHash\<close>, given exactly this file hash and
  this block hash, answers whether the file hash equals the digest of the text
  \<open>[object Object]\<close>: its fold feeds \<open>h.toString()\<close>, not \<open>h.hash\<close>. The round trip
  therefore holds on this file only if the digest collides on these two inputs.
\<close>

theorem compareFileHash_large_file_at_input:
  "calculateFileHash sha bigFs ''zero.bin'' =
     Inr \<lparr>filehash = sha (sha bigContent),
          hashBlocks = Some [\<lparr>hb_hash = sha bigContent, hb_start = 0, hb_end = 19999999\<rparr>]\<rparr>
   \<and> compareFileHash sha bigFs ''zero.bin'' (sha (sha bigContent)) (Some [sha bigContent])
       = Inr (sha (sha bigContent) = sha ''[object Object]'')"
proof -
  have f: "bigFs ''zero.bin'' = Some bigContent" by (simp add: bigFs_def)
  have l: "MB20 \<le> length bigContent" by (simp add: bigContent_def MB20_def)
  have t: "take 20000000 bigContent = bigContent" by (simp add: bigContent_def)
  have 1: "calculateFileHash sha bigFs ''zero.bin'' =
     Inr \<lparr>filehash = sha (sha bigContent),
          hashBlocks = Some [\<lparr>hb_hash = sha bigContent, hb_start = 0, hb_end = 19999999\<rparr>]\<rparr>"
    using calculateFileHash_large [where fs = bigFs and filepath = "''zero.bin''" and content = bigContent and sha = sha, OF f l blockTable_big]
    by (simp add: blockHash_def t)
  have 2: "compareFileHash sha bigFs ''zero.bin'' (sha (sha bigContent)) (Some [sha bigContent])
       = Inr (sha (sha bigContent) = sha ''[object Object]'')"
    using compareFileHash_large [where fs = bigFs and filepath = "''zero.bin''" and content = bigContent and sha = sha
        and expectedHash = "sha (sha bigContent)", OF f l blockTable_big]
    by (simp add: blockHash_def t)
  from 1 2 show ?thesis by simp
qed

text \<open>
  Claim C2. For every file smaller than \<open>MB20\<close> bytes, \<open>calculateFileHash\<close> returns the
  digest of the whole content of the file as \<open>filehash\<close>, and no \<open>hashBlocks\<close>.
\<close>

theorem hashFile_small:
  assumes "fs filepath = Some content" and "length content < MB20"
  shows "calculateFileHash sha fs filepath = Inr \<lparr>filehash = sha content, hashBlocks = None\<rparr>"
  using assms by (simp add: calculateFileHash_def getPartHash_whole)

theorem hashFile_small_witness:
  "smallFs ''a.txt'' = Some ''hi'' \<and> length ''hi'' < MB20
   \<and> calculateFileHash exampleDigest smallFs ''a.txt''
       = Inr \<lparr>filehash = exampleDigest ''hi'', hashBlocks = None\<rparr>"
proof -
  have f: "smallFs ''a.txt'' = Some ''hi''" by (simp add: smallFs_def)
  have l: "length ''hi'' < MB20" by (simp add: MB20_def)
  from f l hashFile_small [where fs = smallFs and filepath = "''a.txt''" and content = "''hi''", OF f l]
  show ?thesis by simp
qed

text \<open>
  For files below the threshold the round trip does hold: the comparison recomputes the
  same whole-file digest.
\<close>

lemma compareFileHash_small:
  assumes "fs filepath = Some content" and "length content < MB20"
  shows "compareFileHash sha fs filepath (sha content) None = Inr True"
  using assms by (simp add: compareFileHash_def getPartHash_whole)

section \<open>Properties of the path utility\<close>

lemma pieces_snoc: "pieces (p @ [c]) = pieceStep (pieces p) c"
  by (simp add: pieces_def)

lemma pieces_cur: "\<exists>pre. p = pre @ snd (pieces p) \<and> CHR ''/'' \<notin> set (snd (pieces p))"
proof (induction p rule: rev_induct)
  case Nil
  then show ?case by (simp add: pieces_def)
next
  case (snoc c p)
  then obtain pre where pre: "p = pre @ snd (pieces p)" and ns: "CHR ''/'' \<notin> set (snd (pieces p))" by blast
  show ?case
  proof (cases "c = CHR ''/''")
    case True
    then show ?thesis by (simp add: pieces_snoc pieceStep_def)
  next
    case False
    have "p @ [c] = pre @ (snd (pieces p) @ [c])" using pre by simp
    with False ns show ?thesis by (auto simp: pieces_snoc pieceStep_def)
  qed
qed

lemma pieces_cur_length: "length (snd (pieces p)) \<le> length p"
  using pieces_cur [of p] by (metis length_append le_add2)

lemma pieces_cur_drop: "drop (length p - length (snd (pieces p))) p = snd (pieces p)"
proof -
  from pieces_cur [of p] obtain pre where pre: "p = pre @ snd (pieces p)" by blast
  then have "length p - length (snd (pieces p)) = length pre"
    by (metis add_diff_cancel_right' length_append)
  with pre show ?thesis by (metis append_eq_conv_conj)
qed

lemma joinSegs_snoc: "joinSegs (stk @ [s]) = (if stk = [] then s else joinSegs stk @ ''/'' @ s)"
  by (induction stk rule: joinSegs.induct) auto

lemma joinSegs_empty: "stackOK stk \<Longrightarrow> joinSegs stk = [] \<longleftrightarrow> stk = []"
  by (induction stk rule: joinSegs.induct) (auto simp: stackOK_def)

lemma lastIndexOf_ge: "- 1 \<le> lastIndexOf s c"
  by (induction s) (auto simp: Let_def)

lemma lastIndexOf_none: "lastIndexOf s c = - 1 \<longleftrightarrow> c \<notin> set s"
proof (induction s)
  case Nil
  then show ?case by simp
next
  case (Cons x s)
  have "lastIndexOf s c + 1 \<noteq> - 1" using lastIndexOf_ge [of s c] by arith
  with Cons show ?case by (auto simp: Let_def)
qed

lemma lastIndexOf_append:
  "lastIndexOf (xs @ ys) c =
     (if lastIndexOf ys c \<noteq> - 1 then int (length xs) + lastIndexOf ys c else lastIndexOf xs c)"
  by (induction xs) (auto simp: Let_def lastIndexOf_none)

lemma lastIndexOf_sep_tail:
  assumes "CHR ''/'' \<notin> set s"
  shows "lastIndexOf (b @ ''/'' @ s) CHR ''/'' = int (length b)"
proof -
  have "lastIndexOf (''/'' @ s) CHR ''/'' = 0"
    using assms by (simp add: Let_def lastIndexOf_none)
  then show ?thesis by (simp add: lastIndexOf_append del: append.simps)
qed

lemma stackOK_snoc: "stackOK (stk @ [s]) \<longleftrightarrow> stackOK stk \<and> s \<noteq> [] \<and> CHR ''/'' \<notin> set s"
  by (auto simp: stackOK_def)

lemma stackOK_butlast: "stackOK stk \<Longrightarrow> stackOK (butlast stk)"
  by (auto simp: stackOK_def dest: in_set_butlastD)

lemma joinSegs_noslash_single:
  assumes "stackOK stk" and "stk \<noteq> []"
  shows "CHR ''/'' \<notin> set (joinSegs stk) \<longleftrightarrow> length stk = 1"
  using assms
proof (induction stk rule: rev_induct)
  case Nil
  then show ?case by simp
next
  case (snoc s stk)
  then show ?case by (cases "stk = []") (auto simp: joinSegs_snoc stackOK_def)
qed

lemma joinSegs_short_single:
  assumes "stackOK stk" and "stk \<noteq> []" and "length (joinSegs stk) \<le> 2"
  shows "length stk = 1"
proof (rule ccontr)
  assume n: "length stk \<noteq> 1"
  from assms(2) obtain b s where bs: "stk = b @ [s]" by (metis rev_exhaust)
  with n have b: "b \<noteq> []" by auto
  from assms(1) bs have ok: "stackOK b" "s \<noteq> []" by (simp_all add: stackOK_snoc)
  from b ok(1) have "joinSegs b \<noteq> []" by (simp add: joinSegs_empty)
  then have "1 \<le> length (joinSegs b)" by (cases "joinSegs b") simp_all
  moreover from ok(2) have "1 \<le> length s" by (cases s) simp_all
  ultimately have "3 \<le> length (joinSegs stk)" using b by (simp add: bs joinSegs_snoc)
  with assms(3) show False by simp
qed

lemma joinSegs_pop:
  assumes "stackOK stk" and "length stk \<noteq> 1" and "stk \<noteq> []"
  shows "lastIndexOf (joinSegs stk) CHR ''/'' = int (length (joinSegs (butlast stk)))"
    and "take (length (joinSegs (butlast stk))) (joinSegs stk) = joinSegs (butlast stk)"
proof -
  from assms(3) obtain b s where bs: "stk = b @ [s]" by (metis rev_exhaust)
  with assms(2) have b: "b \<noteq> []" by auto
  from assms(1) bs have s: "CHR ''/'' \<notin> set s" by (simp add: stackOK_snoc)
  have j: "joinSegs stk = joinSegs b @ ''/'' @ s" using b by (simp add: bs joinSegs_snoc)
  show "lastIndexOf (joinSegs stk) CHR ''/'' = int (length (joinSegs (butlast stk)))"
    unfolding j using lastIndexOf_sep_tail [OF s, of "joinSegs b"] by (simp add: bs)
  show "take (length (joinSegs (butlast stk))) (joinSegs stk) = joinSegs (butlast stk)"
    unfolding j by (simp add: bs)
qed

lemma joinSegs_last:
  assumes "stk \<noteq> []"
  shows "\<exists>pre. joinSegs stk = pre @ last stk"
  using assms
proof (induction stk rule: rev_induct)
  case Nil
  then show ?case by simp
next
  case (snoc s stk)
  show ?case by (cases "stk = []") (auto simp: joinSegs_snoc)
qed

lemma top_is_dotdot:
  assumes "stackOK stk"
  shows "(2 \<le> length (joinSegs stk) \<and> lastLen stk = 2
          \<and> joinSegs stk ! (length (joinSegs stk) - 1) = CHR ''.''
          \<and> joinSegs stk ! (length (joinSegs stk) - 2) = CHR ''.'')
         \<longleftrightarrow> (stk \<noteq> [] \<and> last stk = ''..'')"
proof (cases "stk = []")
  case True
  then show ?thesis by simp
next
  case False
  then obtain pre where pre: "joinSegs stk = pre @ last stk" using joinSegs_last by blast
  show ?thesis
  proof
    assume a: "2 \<le> length (joinSegs stk) \<and> lastLen stk = 2
          \<and> joinSegs stk ! (length (joinSegs stk) - 1) = CHR ''.''
          \<and> joinSegs stk ! (length (joinSegs stk) - 2) = CHR ''.''"
    with False have l: "length (last stk) = 2" by (simp add: lastLen_def)
    then obtain a b where ab: "last stk = [a, b]"
      by (metis (no_types, opaque_lifting) One_nat_def Suc_1 length_0_conv length_Suc_conv)
    have r: "joinSegs stk = pre @ [a, b]" using pre ab by simp
    have n1: "length (joinSegs stk) - 1 = length pre + 1" and n2: "length (joinSegs stk) - 2 = length pre"
      by (simp_all add: r)
    from a n1 have d1: "joinSegs stk ! (length pre + 1) = CHR ''.''" by metis
    from a n2 have d2: "joinSegs stk ! (length pre) = CHR ''.''" by metis
    have "joinSegs stk ! (length pre + 1) = b" and "joinSegs stk ! (length pre) = a"
      by (simp_all add: r nth_append)
    with d1 d2 have "b = CHR ''.''" "a = CHR ''.''" by simp_all
    with ab False show "stk \<noteq> [] \<and> last stk = ''..''" by simp
  next
    assume a: "stk \<noteq> [] \<and> last stk = ''..''"
    then have "joinSegs stk = pre @ ''..''" using pre by simp
    with a show "2 \<le> length (joinSegs stk) \<and> lastLen stk = 2
          \<and> joinSegs stk ! (length (joinSegs stk) - 1) = CHR ''.''
          \<and> joinSegs stk ! (length (joinSegs stk) - 2) = CHR ''.''"
      by (simp add: lastLen_def nth_append)
  qed
qed

lemma dotCount_Nil: "dotCount [] = 0"
  by (simp add: dotCount_def)

lemma dotCount_one: "dotCount cur = 1 \<longleftrightarrow> cur = ''.''"
proof
  assume a: "dotCount cur = 1"
  then have all: "\<forall>c \<in> set cur. c = CHR ''.''" and l: "length cur = 1"
    by (auto simp: dotCount_def split: if_splits)
  from l obtain a where "cur = [a]" by (cases cur) auto
  with all show "cur = ''.''" by simp
next
  assume "cur = ''.''"
  then show "dotCount cur = 1" by (simp add: dotCount_def)
qed

lemma dotCount_two: "dotCount cur = 2 \<longleftrightarrow> cur = ''..''"
proof
  assume a: "dotCount cur = 2"
  then have all: "\<forall>c \<in> set cur. c = CHR ''.''" and l: "length cur = 2"
    by (auto simp: dotCount_def split: if_splits)
  from l obtain a b where "cur = [a, b]"
    by (metis (no_types, opaque_lifting) One_nat_def Suc_1 length_0_conv length_Suc_conv)
  with all show "cur = ''..''" by simp
next
  assume "cur = ''..''"
  then show "dotCount cur = 2" by (simp add: dotCount_def)
qed

lemma dotCount_snoc:
  "dotCount (cur @ [c]) = (if c = CHR ''.'' \<and> dotCount cur \<noteq> - 1 then dotCount cur + 1 else - 1)"
  by (auto simp: dotCount_def)

lemma lastLen_snoc: "lastLen (stk @ [s]) = int (length s)"
  by (simp add: lastLen_def)

lemma ns_body_other:
  assumes "code st \<noteq> CHR ''/''" and "dots st = dotCount cur"
  shows "ns_body aar path i st = st\<lparr>dots := dotCount (cur @ [code st])\<rparr>"
  using assms by (simp add: ns_body_def isPosixPathSeparator_def dotCount_snoc)

lemma ns_body_sep:
  assumes r: "res st = joinSegs stk" and l: "lastSegmentLength st = lastLen stk" and ok: "stackOK stk"
    and ls: "lastSlash st = int i - 1 - int (length cur)" and d: "dots st = dotCount cur"
    and sl: "slice path (nat (lastSlash st + 1)) i = cur"
    and c: "code st = CHR ''/''"
  shows "ns_body aar path i st =
           st\<lparr>res := joinSegs (segStep aar stk cur), lastSegmentLength := lastLen (segStep aar stk cur),
              lastSlash := int i, dots := 0\<rparr>"
proof -
  consider (empty) "cur = []" | (dot) "cur = ''.''" | (dotdot) "cur = ''..''"
    | (other) "cur \<noteq> []" "cur \<noteq> ''.''" "cur \<noteq> ''..''"
    by blast
  then show ?thesis
  proof cases
    case empty
    then have "lastSlash st = int i - 1" using ls by simp
    then show ?thesis using empty r l c
      by (simp add: ns_body_def isPosixPathSeparator_def segStep_def)
  next
    case dot
    then have "dots st = 1" using d by (simp add: dotCount_one)
    then show ?thesis using dot r l c
      by (simp add: ns_body_def isPosixPathSeparator_def segStep_def)
  next
    case dotdot
    then have d2: "dots st = 2" using d by (simp add: dotCount_two)
    have ls': "lastSlash st \<noteq> int i - 1" using ls dotdot by simp
    let ?r = "joinSegs stk"
    let ?n = "length ?r"
    define C where "C \<longleftrightarrow> (?n < 2 \<or> lastLen stk \<noteq> 2 \<or> ?r ! (?n - 1) \<noteq> CHR ''.'' \<or> ?r ! (?n - 2) \<noteq> CHR ''.'')"
    have C: "C \<longleftrightarrow> \<not> (stk \<noteq> [] \<and> last stk = ''..'')"
      unfolding C_def using top_is_dotdot [OF ok] by auto
    have body: "ns_body aar path i st =
       (let st' =
          (if C \<and> ?n > 2 then
             (let lastSlashIndex = lastIndexOf ?r CHR ''/'' in
                if lastSlashIndex = - 1 then st\<lparr>res := [], lastSegmentLength := 0\<rparr>
                else (let r' = take (nat lastSlashIndex) ?r
                      in st\<lparr>res := r', lastSegmentLength := int (length r') - 1 - lastIndexOf r' CHR ''/''\<rparr>))
           else if C \<and> ?n \<noteq> 0 then st\<lparr>res := [], lastSegmentLength := 0\<rparr>
           else if aar then st\<lparr>res := (if ?n > 0 then ?r @ ''/..'' else ''..''), lastSegmentLength := 2\<rparr>
           else st)
        in st'\<lparr>lastSlash := int i, dots := 0\<rparr>)"
      unfolding C_def using c d2 ls' r l by (simp add: ns_body_def isPosixPathSeparator_def Let_def)
    show ?thesis
    proof (cases "stk \<noteq> [] \<and> last stk \<noteq> ''..''")
      case pop: True
      then have Ct: "C" using C by simp
      have ne: "?n \<noteq> 0" using pop ok by (simp add: joinSegs_empty)
      have seg: "segStep aar stk cur = butlast stk" using pop dotdot by (simp add: segStep_def)
      show ?thesis
      proof (cases "length stk = 1")
        case True
        then have bl: "butlast stk = []" by (cases stk) auto
        have noslash: "lastIndexOf ?r CHR ''/'' = - 1"
          using joinSegs_noslash_single [OF ok] pop True by (simp add: lastIndexOf_none)
        show ?thesis unfolding body seg bl using Ct ne noslash
          by (simp add: Let_def lastLen_def)
      next
        case False
        from pop have stk: "stk \<noteq> []" by simp
        have n3: "?n > 2"
          using joinSegs_short_single [OF ok stk] False by force
        note jp = joinSegs_pop [OF ok False stk]
        have okb: "stackOK (butlast stk)" using ok by (rule stackOK_butlast)
        have bne: "butlast stk \<noteq> []" using False stk by (cases stk) (auto split: if_splits)
        have li: "lastIndexOf ?r CHR ''/'' \<noteq> - 1"
          using jp(1) by simp
        have lsl: "int (length (joinSegs (butlast stk))) - 1 - lastIndexOf (joinSegs (butlast stk)) CHR ''/''
                   = lastLen (butlast stk)"
        proof (cases "length (butlast stk) = 1")
          case True
          then obtain s where s: "butlast stk = [s]" by (cases "butlast stk") auto
          have "lastIndexOf (joinSegs (butlast stk)) CHR ''/'' = - 1"
            using joinSegs_noslash_single [OF okb bne] True by (simp add: lastIndexOf_none)
          then show ?thesis by (simp add: s lastLen_def)
        next
          case F2: False
          obtain b s where bs: "butlast stk = b @ [s]" using bne by (metis rev_exhaust)
          with F2 have b: "b \<noteq> []" by auto
          from joinSegs_pop(1) [OF okb F2 bne]
          have "lastIndexOf (joinSegs (butlast stk)) CHR ''/'' = int (length (joinSegs b))"
            by (simp add: bs)
          moreover have "joinSegs (butlast stk) = joinSegs b @ ''/'' @ s"
            using b by (simp add: bs joinSegs_snoc)
          ultimately show ?thesis by (simp add: bs lastLen_def)
        qed
        show ?thesis unfolding body seg using Ct n3 li jp lsl
          by (simp add: Let_def)
      qed
    next
      case nopop: False
      then have top: "stk = [] \<or> last stk = ''..''" by blast
      have branch: "\<not> (C \<and> ?n > 2)" "\<not> (C \<and> ?n \<noteq> 0)"
        using top C ok by (auto simp: joinSegs_empty)
      have seg: "segStep aar stk cur = (if aar then stk @ [''..''] else stk)"
        using nopop dotdot by (auto simp: segStep_def)
      have e: "?n > 0 \<longleftrightarrow> stk \<noteq> []" using ok by (simp add: joinSegs_empty)
      have st: "st\<lparr>res := joinSegs stk, lastSegmentLength := lastLen stk, lastSlash := int i, dots := 0\<rparr>
                = st\<lparr>lastSlash := int i, dots := 0\<rparr>"
        using r l by simp
      show ?thesis unfolding body seg using branch e st
        by (cases aar) (auto simp: Let_def joinSegs_snoc lastLen_snoc)
    qed
  next
    case other
    have ls': "lastSlash st \<noteq> int i - 1" using ls other(1) by simp
    have d1: "dots st \<noteq> 1" and d2: "dots st \<noteq> 2"
      using d other by (simp_all add: dotCount_one dotCount_two)
    have seg: "segStep aar stk cur = stk @ [cur]" using other by (simp add: segStep_def)
    have e: "length (joinSegs stk) > 0 \<longleftrightarrow> stk \<noteq> []" using ok by (simp add: joinSegs_empty)
    have len: "int i - lastSlash st - 1 = int (length cur)" using ls by simp
    show ?thesis unfolding seg
      using c ls' d1 d2 r sl e len
      by (simp add: ns_body_def isPosixPathSeparator_def joinSegs_snoc lastLen_snoc)
  qed
qed

lemma nsRun_0: "nsRun aar path 0 = ns_init"
  by (simp add: nsRun_def)

lemma nsRun_Suc: "nsRun aar path (Suc n) = ns_body aar path n ((nsRun aar path n)\<lparr>code := path ! n\<rparr>)"
  by (simp add: nsRun_def)

lemma stackOK_segStep:
  assumes "stackOK stk" and "CHR ''/'' \<notin> set cur"
  shows "stackOK (segStep aar stk cur)"
  using assms by (auto simp: segStep_def stackOK_def dest: in_set_butlastD)

lemma slice_cur:
  assumes "n \<le> length path"
  shows "slice path (n - length (snd (pieces (take n path)))) n = snd (pieces (take n path))"
proof -
  let ?cur = "snd (pieces (take n path))"
  have le: "length ?cur \<le> n" using pieces_cur_length [of "take n path"] assms by simp
  have "?cur = drop (n - length ?cur) (take n path)"
    using pieces_cur_drop [of "take n path"] assms by simp
  also have "\<dots> = take (n - (n - length ?cur)) (drop (n - length ?cur) path)"
    by (simp add: drop_take)
  finally show ?thesis by (simp add: slice_def)
qed

lemma nsInv_run:
  assumes "n \<le> length path"
  shows "nsInv aar path n (nsRun aar path n)"
  using assms
proof (induction n)
  case 0
  show ?case
    by (simp add: nsInv_def nsRun_0 ns_init_def pieces_def lastLen_def dotCount_def stackOK_def)
next
  case (Suc n)
  then have n: "n < length path" and le: "n \<le> length path" by simp_all
  let ?st = "nsRun aar path n"
  let ?d = "fst (pieces (take n path))"
  let ?cur = "snd (pieces (take n path))"
  let ?stk = "foldl (segStep aar) [] ?d"
  from Suc.IH [OF le] have
    r: "res ?st = joinSegs ?stk" and l: "lastSegmentLength ?st = lastLen ?stk"
    and ls: "lastSlash ?st = int n - 1 - int (length ?cur)" and d: "dots ?st = dotCount ?cur"
    and ok: "stackOK ?stk"
    by (simp_all add: nsInv_def Let_def)
  have cl: "length ?cur \<le> n" using pieces_cur_length [of "take n path"] le by simp
  have cns: "CHR ''/'' \<notin> set ?cur" using pieces_cur [of "take n path"] by blast
  have tk: "take (Suc n) path = take n path @ [path ! n]"
    using n by (simp add: take_Suc_conv_app_nth)
  have ps: "pieces (take (Suc n) path) = pieceStep (pieces (take n path)) (path ! n)"
    by (simp add: tk pieces_snoc)
  let ?st1 = "?st\<lparr>code := path ! n\<rparr>"
  show ?case
  proof (cases "path ! n = CHR ''/''")
    case True
    have nat: "nat (lastSlash ?st1 + 1) = n - length ?cur" using ls cl by simp
    have sl: "slice path (nat (lastSlash ?st1 + 1)) n = ?cur"
      unfolding nat using le by (rule slice_cur)
    have "ns_body aar path n ?st1 =
           ?st1\<lparr>res := joinSegs (segStep aar ?stk ?cur), lastSegmentLength := lastLen (segStep aar ?stk ?cur),
              lastSlash := int n, dots := 0\<rparr>"
      by (rule ns_body_sep [where cur = ?cur]) (use r l ok ls d sl True in simp_all)
    then show ?thesis
      using True stackOK_segStep [OF ok cns, of aar]
      by (simp add: nsInv_def nsRun_Suc ps pieceStep_def dotCount_Nil)
  next
    case False
    have "ns_body aar path n ?st1 = ?st1\<lparr>dots := dotCount (?cur @ [code ?st1])\<rparr>"
      by (rule ns_body_other) (use False d in simp_all)
    then show ?thesis
      using False r l ls ok
      by (simp add: nsInv_def nsRun_Suc ps pieceStep_def)
  qed
qed

lemma normalizeString_segments:
  "normalizeString path aar = joinSegs (foldl (segStep aar) [] (segments path))"
proof -
  let ?n = "length path"
  let ?st = "nsRun aar path ?n"
  let ?d = "fst (pieces path)"
  let ?cur = "snd (pieces path)"
  let ?stk = "foldl (segStep aar) [] ?d"
  from nsInv_run [of ?n path aar] have
    r: "res ?st = joinSegs ?stk" and l: "lastSegmentLength ?st = lastLen ?stk"
    and ls: "lastSlash ?st = int ?n - 1 - int (length ?cur)" and d: "dots ?st = dotCount ?cur"
    and ok: "stackOK ?stk" and cd: "0 < ?n \<longrightarrow> code ?st = path ! (?n - 1)"
    by (simp_all add: nsInv_def Let_def)
  have ns: "normalizeString path aar =
             (if code ?st = CHR ''/'' then res ?st
              else res (ns_body aar path ?n (?st\<lparr>code := CHR ''/''\<rparr>)))"
    by (simp add: normalizeString_def nsRun_def isPosixPathSeparator_def Let_def)
  have seg: "foldl (segStep aar) [] (segments path) = segStep aar ?stk ?cur"
    by (simp add: segments_def)
  show ?thesis
  proof (cases "code ?st = CHR ''/''")
    case True
    have pne: "path \<noteq> []"
    proof
      assume "path = []"
      then have "?st = ns_init" by (simp add: nsRun_0)
      with True show False by (simp add: ns_init_def)
    qed
    with cd True have "path ! (?n - 1) = CHR ''/''" by simp
    with pne have "path = butlast path @ ''/''"
      by (metis append_butlast_last_id last_conv_nth)
    then have "pieces path = pieceStep (pieces (butlast path)) CHR ''/''"
      by (metis pieces_snoc)
    then have "?cur = []" by (simp add: pieceStep_def)
    then have "segStep aar ?stk ?cur = ?stk" by (simp add: segStep_def)
    with True r show ?thesis by (simp add: ns seg)
  next
    case False
    let ?st1 = "?st\<lparr>code := CHR ''/''\<rparr>"
    have cl: "length ?cur \<le> ?n" by (rule pieces_cur_length)
    have nat: "nat (lastSlash ?st1 + 1) = ?n - length ?cur" using ls cl by simp
    have sl: "slice path (nat (lastSlash ?st1 + 1)) ?n = ?cur"
      unfolding nat using slice_cur [of ?n path] by simp
    have "ns_body aar path ?n ?st1 =
           ?st1\<lparr>res := joinSegs (segStep aar ?stk ?cur), lastSegmentLength := lastLen (segStep aar ?stk ?cur),
              lastSlash := int ?n, dots := 0\<rparr>"
      by (rule ns_body_sep [where cur = ?cur]) (use r l ok ls d sl in simp_all)
    with False show ?thesis by (simp add: ns seg)
  qed
qed

lemma pieces_splitOn_gen:
  "fst (foldl pieceStep (d, c) p) @ [snd (foldl pieceStep (d, c) p)]
     = d @ ((c @ hd (splitOn CHR ''/'' p)) # tl (splitOn CHR ''/'' p))"
proof (induction p arbitrary: d c)
  case Nil
  then show ?case by simp
next
  case (Cons x xs)
  have ne: "splitOn CHR ''/'' xs \<noteq> []" by (cases xs) (auto split: list.splits)
  show ?case
  proof (cases "x = CHR ''/''")
    case True
    have "foldl pieceStep (d, c) (x # xs) = foldl pieceStep (d @ [c], []) xs"
      using True by (simp add: pieceStep_def)
    then show ?thesis using Cons [of "d @ [c]" "[]"] True ne by simp
  next
    case False
    have "foldl pieceStep (d, c) (x # xs) = foldl pieceStep (d, c @ [x]) xs"
      using False by (simp add: pieceStep_def)
    then show ?thesis using Cons [of d "c @ [x]"] False ne
      by (auto split: list.splits)
  qed
qed

lemma splitOn_nonempty: "splitOn c p \<noteq> []"
  by (cases p) (auto split: list.splits)

lemma segments_splitOn: "segments p = splitOn CHR ''/'' p"
  using pieces_splitOn_gen [of "[]" "[]" p] splitOn_nonempty [of "CHR ''/''" p]
  by (simp add: segments_def pieces_def)

lemma splitOn_noslash: "c \<notin> set s \<Longrightarrow> splitOn c s = [s]"
  by (induction s) auto

lemma splitOn_append_sep: "c \<notin> set s \<Longrightarrow> splitOn c (s @ c # rest) = s # splitOn c rest"
  by (induction s) auto

lemma splitOn_Cons:
  "splitOn c (x # xs) =
     (if x = c then [] # splitOn c xs else (x # hd (splitOn c xs)) # tl (splitOn c xs))"
  using splitOn_nonempty [of c xs] by (cases "splitOn c xs") simp_all

lemma splitOn_chars: "s \<in> set (splitOn c p) \<Longrightarrow> set s \<subseteq> set p"
proof (induction p arbitrary: s)
  case Nil
  then show ?case by simp
next
  case (Cons x xs)
  have ne: "splitOn c xs \<noteq> []" by (rule splitOn_nonempty)
  then have hd: "hd (splitOn c xs) \<in> set (splitOn c xs)" by simp
  have tl: "set (tl (splitOn c xs)) \<subseteq> set (splitOn c xs)" using ne by (cases "splitOn c xs") auto
  from Cons.prems consider "s = []" | "s = x # hd (splitOn c xs)" | "s \<in> set (splitOn c xs)"
    using tl by (auto simp: splitOn_Cons simp del: splitOn.simps split: if_splits)
  then show ?case
  proof cases
    case 1
    then show ?thesis by simp
  next
    case 2
    with Cons.IH [OF hd] show ?thesis by auto
  next
    case 3
    with Cons.IH [OF 3] show ?thesis by auto
  qed
qed

lemma splitOn_no_sep: "s \<in> set (splitOn c p) \<Longrightarrow> c \<notin> set s"
proof (induction p arbitrary: s)
  case Nil
  then show ?case by simp
next
  case (Cons x xs)
  have ne: "splitOn c xs \<noteq> []" by (rule splitOn_nonempty)
  then have hd: "hd (splitOn c xs) \<in> set (splitOn c xs)" by simp
  have tl: "set (tl (splitOn c xs)) \<subseteq> set (splitOn c xs)" using ne by (cases "splitOn c xs") auto
  from Cons.prems consider "s = []" | "x \<noteq> c" "s = x # hd (splitOn c xs)" | "s \<in> set (splitOn c xs)"
    using tl by (auto simp: splitOn_Cons simp del: splitOn.simps split: if_splits)
  then show ?case
  proof cases
    case 1
    then show ?thesis by simp
  next
    case 2
    with Cons.IH [OF hd] show ?thesis by auto
  next
    case 3
    with Cons.IH [OF 3] show ?thesis by auto
  qed
qed

lemma segments_joinSegs:
  assumes "stackOK stk" and "stk \<noteq> []"
  shows "segments (joinSegs stk) = stk"
  using assms
proof (induction stk rule: joinSegs.induct)
  case 1
  then show ?case by simp
next
  case (2 s)
  then show ?case by (simp add: segments_splitOn splitOn_noslash stackOK_def)
next
  case (3 s t r)
  then have "CHR ''/'' \<notin> set s" and "stackOK (t # r)" by (simp_all add: stackOK_def)
  with 3 show ?case by (simp add: segments_splitOn splitOn_append_sep)
qed

lemma stackNF_stackOK:
  assumes "stackNF aar stk"
  shows "stackOK stk"
proof -
  from assms obtain k ns where stk: "stk = replicate k ''..'' @ ns" and ns: "\<forall>s \<in> set ns. okSeg s"
    unfolding stackNF_def by blast
  have "s \<noteq> [] \<and> CHR ''/'' \<notin> set s" if "s \<in> set stk" for s
  proof -
    from that stk have "s = ''..'' \<or> s \<in> set ns" by auto
    with ns show ?thesis by (auto simp: okSeg_def)
  qed
  then show ?thesis by (simp add: stackOK_def)
qed

lemma stackNF_Nil: "stackNF aar []"
  by (simp add: stackNF_def)

lemma last_replicate_append:
  "ns \<noteq> [] \<Longrightarrow> last (replicate k x @ ns) = last ns"
  by simp

lemma stackNF_segStep:
  assumes "stackNF aar stk" and "CHR ''/'' \<notin> set seg"
  shows "stackNF aar (segStep aar stk seg)"
proof -
  from assms(1) obtain k ns where stk: "stk = replicate k ''..'' @ ns"
    and k: "\<not> aar \<longrightarrow> k = 0" and ns: "\<forall>s \<in> set ns. okSeg s"
    by (auto simp: stackNF_def)
  consider (skip) "seg = [] \<or> seg = ''.''" | (dotdot) "seg = ''..''"
    | (plain) "seg \<noteq> []" "seg \<noteq> ''.''" "seg \<noteq> ''..''" by blast
  then show ?thesis
  proof cases
    case skip
    then show ?thesis using assms(1) by (auto simp: segStep_def)
  next
    case dotdot
    show ?thesis
    proof (cases "ns = []")
      case True
      then have "stk = [] \<or> last stk = ''..''" using stk by (cases k) auto
      then have e: "segStep aar stk seg = (if aar then replicate (Suc k) ''..'' @ [] else stk)"
        using dotdot stk True by (auto simp: segStep_def replicate_append_same)
      show ?thesis
      proof (cases aar)
        case True
        have "replicate (Suc k) ''..'' @ [] = replicate (Suc k) ''..'' @ []
              \<and> (\<not> aar \<longrightarrow> Suc k = 0) \<and> (\<forall>s \<in> set ([] :: string list). okSeg s)"
          using True by simp
        then have "stackNF aar (replicate (Suc k) ''..'' @ [])" unfolding stackNF_def by blast
        with e True show ?thesis by simp
      next
        case False
        with e assms(1) show ?thesis by simp
      qed
    next
      case False
      then have "last stk = last ns" and "stk \<noteq> []" using stk by simp_all
      moreover have "last ns \<noteq> ''..''" using ns False by (auto simp: okSeg_def)
      ultimately have "segStep aar stk seg = replicate k ''..'' @ butlast ns"
        using dotdot stk False by (simp add: segStep_def butlast_append)
      moreover have "\<forall>s \<in> set (butlast ns). okSeg s" using ns by (auto dest: in_set_butlastD)
      ultimately show ?thesis using k by (auto simp: stackNF_def)
    qed
  next
    case plain
    then have "segStep aar stk seg = replicate k ''..'' @ (ns @ [seg])"
      using stk by (simp add: segStep_def)
    moreover have "\<forall>s \<in> set (ns @ [seg]). okSeg s"
      using ns plain assms(2) by (auto simp: okSeg_def)
    ultimately show ?thesis using k unfolding stackNF_def by blast
  qed
qed

lemma stackNF_foldl:
  assumes "\<forall>s \<in> set segs. CHR ''/'' \<notin> set s" and "stackNF aar stk"
  shows "stackNF aar (foldl (segStep aar) stk segs)"
  using assms by (induction segs arbitrary: stk) (simp_all add: stackNF_segStep)

lemma foldl_dotdots:
  "aar \<Longrightarrow> foldl (segStep aar) (replicate j ''..'') (replicate k ''..'') = replicate (j + k) ''..''"
proof (induction k arbitrary: j)
  case 0
  then show ?case by simp
next
  case (Suc k)
  have "segStep aar (replicate j ''..'') ''..'' = replicate (Suc j) ''..''"
    using Suc.prems by (cases j) (auto simp: segStep_def replicate_append_same)
  then show ?case using Suc.IH [OF Suc.prems, of "Suc j"] by simp
qed

lemma foldl_plain:
  "\<forall>s \<in> set ns. okSeg s \<Longrightarrow> foldl (segStep aar) acc ns = acc @ ns"
  by (induction ns arbitrary: acc) (auto simp: segStep_def okSeg_def)

lemma stackNF_stable:
  assumes "stackNF aar stk"
  shows "foldl (segStep aar) [] stk = stk"
proof -
  from assms obtain k ns where stk: "stk = replicate k ''..'' @ ns"
    and k: "\<not> aar \<longrightarrow> k = 0" and ns: "\<forall>s \<in> set ns. okSeg s"
    by (auto simp: stackNF_def)
  have "foldl (segStep aar) [] (replicate k ''..'') = replicate k ''..''"
  proof (cases aar)
    case True
    then show ?thesis using foldl_dotdots [of aar 0 k] by simp
  next
    case False
    with k show ?thesis by simp
  qed
  then show ?thesis using foldl_plain [OF ns] by (simp add: stk)
qed

lemma segments_noslash: "\<forall>s \<in> set (segments p). CHR ''/'' \<notin> set s"
  by (auto simp: segments_splitOn dest: splitOn_no_sep)

lemma segStep_chars:
  assumes "s \<in> set (segStep aar stk seg)"
  shows "s \<in> set stk \<or> s = seg \<or> s = ''..''"
proof -
  have "set (segStep aar stk seg) \<subseteq> set stk \<union> {seg, ''..''}"
    using in_set_butlastD [of _ stk] by (auto simp: segStep_def)
  with assms show ?thesis by auto
qed

lemma foldl_segStep_chars:
  "s \<in> set (foldl (segStep aar) stk segs) \<Longrightarrow> s \<in> set stk \<or> s \<in> set segs \<or> s = ''..''"
proof (induction segs arbitrary: stk)
  case Nil
  then show ?case by simp
next
  case (Cons a segs)
  from Cons.prems have "s \<in> set (foldl (segStep aar) (segStep aar stk a) segs)" by simp
  from Cons.IH [OF this] consider "s \<in> set (segStep aar stk a)" | "s \<in> set segs" | "s = ''..''"
    by blast
  then show ?case
  proof cases
    case 1
    from segStep_chars [OF 1] show ?thesis by auto
  next
    case 2
    then show ?thesis by simp
  next
    case 3
    then show ?thesis by simp
  qed
qed

lemma joinSegs_chars: "c \<in> set (joinSegs stk) \<Longrightarrow> c = CHR ''/'' \<or> (\<exists>s \<in> set stk. c \<in> set s)"
  by (induction stk rule: joinSegs.induct) auto

lemma stackOf_NF: "stackNF (\<not> isAbs p) (stackOf p)"
  unfolding stackOf_def by (rule stackNF_foldl [OF segments_noslash stackNF_Nil])

lemma stackOf_OK: "stackOK (stackOf p)"
  using stackOf_NF by (rule stackNF_stackOK)

lemma posix_normalize_char:
  assumes "p \<noteq> []"
  shows "posix_normalize p =
           (if stackOf p = [] then (if isAbs p then ''/'' else if trailing p then ''./'' else ''.'')
            else (if isAbs p then ''/'' else '''') @ joinSegs (stackOf p)
                 @ (if trailing p then ''/'' else ''''))"
proof -
  have h: "(p ! 0 = CHR ''/'') = isAbs p" using assms by (simp add: isAbs_def hd_conv_nth)
  have t: "(p ! (length p - 1) = CHR ''/'') = trailing p"
    using assms by (simp add: trailing_def last_conv_nth)
  have n: "normalizeString p (\<not> isAbs p) = joinSegs (stackOf p)"
    by (simp add: normalizeString_segments stackOf_def)
  have e: "joinSegs (stackOf p) = [] \<longleftrightarrow> stackOf p = []"
    using stackOf_OK by (rule joinSegs_empty)
  show ?thesis
    unfolding posix_normalize_def Let_def h t n using assms e by simp
qed

lemma stackOf_chars:
  assumes "s \<in> set (stackOf p)"
  shows "set s \<subseteq> set p \<union> {CHR ''.''}"
proof -
  from assms have "s \<in> set (segments p) \<or> s = ''..''"
    using foldl_segStep_chars [of s "\<not> isAbs p" "[]" "segments p"] by (simp add: stackOf_def)
  then show ?thesis
    using splitOn_chars [of s "CHR ''/''" p] by (auto simp: segments_splitOn)
qed

lemma posix_normalize_chars:
  "set (posix_normalize p) \<subseteq> set p \<union> {CHR ''.'', CHR ''/''}"
proof (cases "p = []")
  case True
  then show ?thesis by (simp add: posix_normalize_def)
next
  case False
  have "c \<in> set p \<union> {CHR ''.'', CHR ''/''}" if "c \<in> set (joinSegs (stackOf p))" for c
    using joinSegs_chars [OF that] stackOf_chars [of _ p] by auto
  then show ?thesis
    by (auto simp: posix_normalize_char [OF False])
qed

lemma replaceBackslashes_id: "CHR 0x5C \<notin> set s \<Longrightarrow> replaceBackslashes s = s"
  by (induction s) (auto simp: replaceBackslashes_def)

lemma endsWith_slash: "endsWith s ''/'' \<longleftrightarrow> s \<noteq> [] \<and> last s = CHR ''/''"
proof
  assume "endsWith s ''/''"
  then obtain zs where "s = zs @ ''/''" by (auto simp: endsWith_def suffix_def)
  then show "s \<noteq> [] \<and> last s = CHR ''/''" by simp
next
  assume a: "s \<noteq> [] \<and> last s = CHR ''/''"
  then have "s = butlast s @ ''/''" by (metis append_butlast_last_id)
  then show "endsWith s ''/''" unfolding endsWith_def suffix_def by blast
qed

lemma joinSegs_ends:
  assumes "stackOK stk" and "stk \<noteq> []"
  shows "joinSegs stk \<noteq> []" and "last (joinSegs stk) \<noteq> CHR ''/''" and "hd (joinSegs stk) \<noteq> CHR ''/''"
proof -
  show ne: "joinSegs stk \<noteq> []" using assms by (simp add: joinSegs_empty)
  from joinSegs_last [OF assms(2)] obtain pre where pre: "joinSegs stk = pre @ last stk" by blast
  have l: "last stk \<noteq> []" "CHR ''/'' \<notin> set (last stk)"
    using assms by (auto simp: stackOK_def)
  then have "last (joinSegs stk) = last (last stk)" by (simp add: pre)
  with l show "last (joinSegs stk) \<noteq> CHR ''/''" by (metis last_in_set)
  obtain s r where sr: "stk = s # r" using assms(2) by (cases stk) auto
  then have s: "s \<noteq> []" "CHR ''/'' \<notin> set s" using assms(1) by (auto simp: stackOK_def)
  have "hd (joinSegs stk) = hd s" using s(1) by (cases r) (simp_all add: sr)
  with s show "hd (joinSegs stk) \<noteq> CHR ''/''" by (metis hd_in_set)
qed

lemma normalize_char:
  assumes "CHR 0x5C \<notin> set p" and "p \<noteq> []" and "p \<noteq> ''.''"
  shows "normalize_path p =
           (if stackOf p = [] then (if isAbs p then ''/'' else ''.'')
            else (if isAbs p then ''/'' else '''') @ joinSegs (stackOf p))"
proof -
  let ?X = "posix_normalize p"
  have nb: "CHR 0x5C \<notin> set ?X" using posix_normalize_chars [of p] assms(1) by auto
  have n: "normalize_path p = (if ?X \<noteq> ''/'' \<and> endsWith ?X ''/'' then take (length ?X - 1) ?X else ?X)"
    using assms by (simp add: normalize_path_def Let_def replaceBackslashes_id [OF nb])
  show ?thesis
  proof (cases "stackOf p = []")
    case True
    then have "?X = (if isAbs p then ''/'' else if trailing p then ''./'' else ''.'')"
      by (simp add: posix_normalize_char [OF assms(2)])
    then show ?thesis using True by (simp add: n endsWith_slash)
  next
    case False
    let ?pre = "if isAbs p then ''/'' else ''''"
    let ?r = "joinSegs (stackOf p)"
    note je = joinSegs_ends [OF stackOf_OK False]
    have X: "?X = ?pre @ ?r @ (if trailing p then ''/'' else '''')"
      using False by (simp add: posix_normalize_char [OF assms(2)])
    show ?thesis
    proof (cases "trailing p")
      case True
      then have X': "?X = (?pre @ ?r) @ ''/''" using X by simp
      have "?X \<noteq> ''/''" using je(1) X' by simp
      moreover have "endsWith ?X ''/''" using X' by (simp add: endsWith_slash)
      moreover have "take (length ?X - 1) ?X = ?pre @ ?r" unfolding X' by simp
      ultimately show ?thesis using False n by simp
    next
      case F: False
      then have X': "?X = ?pre @ ?r" using X by simp
      have "last ?X = last ?r" using je(1) X' by simp
      then have "\<not> endsWith ?X ''/''" using je(2) by (simp add: endsWith_slash)
      then show ?thesis using False n X' by simp
    qed
  qed
qed

lemma normalize_no_trailing:
  assumes "CHR 0x5C \<notin> set p"
  shows "normalize_path p = ''/'' \<or> \<not> endsWith (normalize_path p) ''/''"
proof (cases "p = [] \<or> p = ''.''")
  case True
  then have "normalize_path p = []" by (auto simp: normalize_path_def)
  then show ?thesis by (simp add: endsWith_slash)
next
  case False
  then have ne: "p \<noteq> []" and nd: "p \<noteq> ''.''" by simp_all
  note nc = normalize_char [OF assms ne nd]
  show ?thesis
  proof (cases "stackOf p = []")
    case True
    with nc show ?thesis by (simp add: endsWith_slash)
  next
    case F: False
    note je = joinSegs_ends [OF stackOf_OK F]
    have "last (normalize_path p) = last (joinSegs (stackOf p))" using nc F je(1) by simp
    with je(2) show ?thesis by (simp add: endsWith_slash)
  qed
qed

lemma stackNF_no_dot: "stackNF aar stk \<Longrightarrow> ''.'' \<notin> set stk"
proof
  assume nf: "stackNF aar stk" and d: "''.'' \<in> set stk"
  from nf obtain k ns where stk: "stk = replicate k ''..'' @ ns" and ns: "\<forall>s \<in> set ns. okSeg s"
    unfolding stackNF_def by blast
  from d stk have "''.'' \<in> set ns" by auto
  with ns show False by (auto simp: okSeg_def)
qed

lemma normalize_slash: "normalize_path ''/'' = ''/''"
  by code_simp

lemma normalize_idempotent:
  assumes "CHR 0x5C \<notin> set p" and "normalize_path p \<noteq> ''.''"
  shows "normalize_path (normalize_path p) = normalize_path p"
proof (cases "p = [] \<or> p = ''.''")
  case True
  then have "normalize_path p = []" by (auto simp: normalize_path_def)
  then show ?thesis by (simp add: normalize_path_def)
next
  case False
  then have ne: "p \<noteq> []" and nd: "p \<noteq> ''.''" by simp_all
  note nc = normalize_char [OF assms(1) ne nd]
  show ?thesis
  proof (cases "stackOf p = []")
    case True
    with nc assms(2) have "normalize_path p = ''/''" by (simp split: if_splits)
    then show ?thesis by (simp add: normalize_slash)
  next
    case F: False
    let ?stk = "stackOf p"
    let ?r = "joinSegs ?stk"
    let ?q = "normalize_path p"
    note je = joinSegs_ends [OF stackOf_OK F]
    have q: "?q = (if isAbs p then ''/'' else '''') @ ?r" using nc F by simp
    have segr: "segments ?r = ?stk" using stackOf_OK F by (rule segments_joinSegs)
    have qne: "?q \<noteq> []" using q je(1) by simp
    have abs: "isAbs ?q = isAbs p"
      using q je(1) je(3) by (cases "isAbs p") (simp_all add: isAbs_def)
    have qnb: "CHR 0x5C \<notin> set ?q"
    proof
      assume b: "CHR 0x5C \<in> set ?q"
      then have "CHR 0x5C \<in> set ?r" using q by (auto split: if_splits)
      from joinSegs_chars [OF this] obtain s where "s \<in> set ?stk" "CHR 0x5C \<in> set s" by auto
      with stackOf_chars [of s p] assms(1) show False by auto
    qed
    have segq: "segments ?q = (if isAbs p then [[]] else []) @ ?stk"
    proof (cases "isAbs p")
      case True
      then have "?q = CHR ''/'' # ?r" using q by simp
      then have "segments ?q = [] # segments ?r" by (simp add: segments_splitOn)
      with True segr show ?thesis by simp
    next
      case False
      with q segr show ?thesis by simp
    qed
    have stab: "foldl (segStep (\<not> isAbs p)) [] ?stk = ?stk"
      using stackOf_NF by (rule stackNF_stable)
    have "stackOf ?q = foldl (segStep (\<not> isAbs ?q)) [] (segments ?q)" by (rule stackOf_def)
    also have "\<dots> = foldl (segStep (\<not> isAbs p)) [] ((if isAbs p then [[]] else []) @ ?stk)"
      by (simp only: abs segq)
    also have "\<dots> = foldl (segStep (\<not> isAbs p)) [] ?stk" by (simp add: segStep_def)
    also have "\<dots> = ?stk" by (rule stab)
    finally have sq: "stackOf ?q = ?stk" .
    have qnd: "?q \<noteq> ''.''" by (rule assms(2))
    have "normalize_path ?q =
            (if stackOf ?q = [] then (if isAbs ?q then ''/'' else ''.'')
             else (if isAbs ?q then ''/'' else []) @ joinSegs (stackOf ?q))"
      by (rule normalize_char [OF qnb qne qnd])
    also have "\<dots> = (if isAbs p then ''/'' else []) @ ?r"
      unfolding sq abs using F by simp
    also have "\<dots> = ?q" by (rule q [symmetric])
    finally show ?thesis .
  qed
qed

text \<open>
  Claim C3, as amended. \<open>normalize('')\<close> and \<open>normalize('.')\<close> are the empty string and
  \<open>normalize('/')\<close> is \<open>/\<close>. For every path \<open>p\<close> without a backslash, the result does not
  end in a separator unless it is the bare root \<open>/\<close>, and \<open>normalize\<close> leaves the result
  unchanged when applied again, unless the result is \<open>.\<close> (which a second application
  turns into the empty string).
\<close>

theorem normalize_properties:
  "normalize_path '''' = '''' \<and> normalize_path ''.'' = '''' \<and> normalize_path ''/'' = ''/''
   \<and> (CHR 0x5C \<notin> set p \<longrightarrow>
        (normalize_path p = ''/'' \<or> \<not> endsWith (normalize_path p) ''/'')
        \<and> (normalize_path p \<noteq> ''.'' \<longrightarrow> normalize_path (normalize_path p) = normalize_path p))"
  using normalize_no_trailing [of p] normalize_idempotent [of p] normalize_slash
  by (simp add: normalize_path_def)

theorem normalize_properties_witness:
  "CHR 0x5C \<notin> set examplePath
   \<and> normalize_path examplePath = ''/Users/snowtrack/foo''
   \<and> normalize_path examplePath \<noteq> ''.''
   \<and> \<not> endsWith (normalize_path examplePath) ''/''
   \<and> normalize_path (normalize_path examplePath) = normalize_path examplePath"
proof -
  have b: "CHR 0x5C \<notin> set examplePath" by (simp add: examplePath_def)
  have v: "normalize_path examplePath = ''/Users/snowtrack/foo''" by code_simp
  from normalize_properties [of examplePath] b v show ?thesis by simp
qed

text \<open>
  With a backslash in the path the result can keep a trailing separator: the POSIX
  \<open>path.normalize\<close> treats the backslash as an ordinary character and the replacement
  turns it into a second separator afterwards.
\<close>

lemma normalize_backslash_not_idempotent:
  "normalize_path [CHR ''a'', CHR ''/'', CHR 0x5C] = ''a/'' \<and> normalize_path ''a/'' = ''a''"
  by code_simp

text \<open>
  Claim C3 as stated fails: \<open>normalize\<close> is not idempotent. \<open>path.normalize('./')\<close> is
  \<open>./\<close>, whose trailing separator is stripped, so \<open>normalize('./')\<close> is \<open>.\<close>; and
  \<open>normalize('.')\<close> is the empty string.
\<close>

theorem normalize_not_idempotent:
  "normalize_path ''./'' = ''.'' \<and> normalize_path (normalize_path ''./'') = '''' \<and> normalize_path (normalize_path ''./'') \<noteq> normalize_path ''./''"
  by code_simp

section \<open>Properties of the ignore matcher\<close>







section \<open>Properties of \<open>findCommitByHash\<close>\<close>













section \<open>Properties of the repository operations\<close>

lemma persistCommit_events:
  assumes "persistCommit x repo commit message = (es, repo', r)"
  shows "(\<forall>p c. EvWriteFile p c \<notin> set es) \<and> r \<noteq> Inl CommondirInside"
  using assms by (auto simp: persistCommit_def Let_def split: if_splits)

lemma createCommit_events:
  assumes "createCommit x repo index0 message allowEmpty tags userData = (es, repo', r)"
  shows "(\<forall>p c. EvWriteFile p c \<notin> set es) \<and> r \<noteq> Inl CommondirInside"
proof (cases "commitIndex x index0 allowEmpty")
  case (Pair es0 ri)
  have es0: "\<forall>p c. EvWriteFile p c \<notin> set es0" and ri: "ri \<noteq> Inl CommondirInside"
    using Pair by (auto simp: commitIndex_def split: if_splits option.splits)
  show ?thesis
  proof (cases ri)
    case (Inl e)
    with assms Pair es0 ri show ?thesis by (auto simp: createCommit_def)
  next
    case (Inr index)
    show ?thesis
    proof (cases "overlayHeadTree repo index")
      case (Inl e)
      then have "e \<noteq> CommondirInside"
        by (auto simp: overlayHeadTree_def split: if_splits option.splits)
      with assms Pair es0 Inr Inl show ?thesis by (auto simp: createCommit_def)
    next
      case pm: (Inr pm)
      show ?thesis
      proof (cases "x_indexInvalidate x")
        case False
        with assms Pair es0 Inr pm show ?thesis by (auto simp: createCommit_def)
      next
        case True
        let ?c = "newCommit x repo index pm message tags userData"
        obtain es2 repo2 r2 where p: "persistCommit x (registerCommit repo ?c) ?c message = (es2, repo2, r2)"
          by (cases "persistCommit x (registerCommit repo ?c) ?c message") auto
        from assms Pair Inr pm True p have "es = es0 @ [EvIndexInvalidate] @ es2" and "r = r2"
          by (auto simp: createCommit_def Let_def)
        with persistCommit_events [OF p] es0 show ?thesis by auto
      qed
    qed
  qed
qed

text \<open>
  Claim C4, as amended. With a non-empty \<open>opts.commondir\<close>, \<open>initExt\<close> throws
  \<open>commondir must be outside repository\<close> exactly when \<open>properNormalize(workdir)\<close> is a
  string prefix of \<open>properNormalize(opts.commondir)\<close>, and then nothing has been called;
  otherwise \<open>opts.commondir\<close> stays as given and, once \<open>ensureDir(workdir)\<close> has resolved,
  the next call writes the file \<open>join(workdir, '.snow')\<close> with \<open>opts.commondir\<close> as its
  contents. With \<open>opts.commondir\<close> missing or empty the check cannot throw,
  \<open>opts.commondir\<close> becomes \<open>join(workdir, '.snow')\<close> and no file is written.
\<close>

theorem initExt_commondir:
  "(truthy commondirOpt \<longrightarrow>
      (snd (snd (initExt x workdir commondirOpt)) = Inl CommondirInside
         \<longleftrightarrow> startsWith (properNormalize (the commondirOpt)) (properNormalize workdir))
      \<and> (startsWith (properNormalize (the commondirOpt)) (properNormalize workdir)
           \<longrightarrow> fst (initExt x workdir commondirOpt) = [])
      \<and> (\<not> startsWith (properNormalize (the commondirOpt)) (properNormalize workdir)
           \<longrightarrow> fst (snd (initExt x workdir commondirOpt)) = commondirOpt
               \<and> (x_ensureDir x workdir
                    \<longrightarrow> take 2 (fst (initExt x workdir commondirOpt))
                        = [EvEnsureDir workdir, EvWriteFile (posix_join [workdir, ''.snow'']) (the commondirOpt)])))
   \<and> (\<not> truthy commondirOpt \<longrightarrow>
        snd (snd (initExt x workdir commondirOpt)) \<noteq> Inl CommondirInside
        \<and> fst (snd (initExt x workdir commondirOpt)) = Some (posix_join [workdir, ''.snow''])
        \<and> (\<forall>p c. EvWriteFile p c \<notin> set (fst (initExt x workdir commondirOpt))))"
proof -
  let ?cd = "if truthy commondirOpt then the commondirOpt else posix_join [workdir, ''.snow'']"
  let ?repo = "newRepository\<lparr>optionsCommondir := Some ?cd, repoWorkDir := workdir,
                             repoCommonDir := ?cd, repoIndexes := []\<rparr>"
  obtain es3 repo3 r3 where cc: "createCommit x ?repo (getFirstIndex ?repo) ''Created Project'' True [] [] = (es3, repo3, r3)"
    by (cases "createCommit x ?repo (getFirstIndex ?repo) ''Created Project'' True [] []") auto
  note ev = createCommit_events [OF cc]
  have some: "truthy commondirOpt \<Longrightarrow> Some (the commondirOpt) = commondirOpt"
    by (cases commondirOpt) (simp_all add: truthy_def)
  show ?thesis
    using ev cc some
    by (cases r3) (auto simp: initExt_def Let_def)
qed


theorem initExt_commondir_witness:
  "truthy (Some ''/ext'')
   \<and> \<not> startsWith (properNormalize ''/ext'') (properNormalize ''/w'')
   \<and> snd (snd (initExt okEnv ''/w'' (Some ''/ext''))) \<noteq> Inl CommondirInside
   \<and> take 2 (fst (initExt okEnv ''/w'' (Some ''/ext''))) = [EvEnsureDir ''/w'', EvWriteFile ''/w/.snow'' ''/ext'']
   \<and> truthy (Some ''/w/x'')
   \<and> startsWith (properNormalize ''/w/x'') (properNormalize ''/w'')
   \<and> snd (snd (initExt okEnv ''/w'' (Some ''/w/x''))) = Inl CommondirInside
   \<and> fst (initExt okEnv ''/w'' (Some ''/w/x'')) = []
   \<and> \<not> truthy None
   \<and> fst (snd (initExt okEnv ''/w'' None)) = Some ''/w/.snow''"
proof -
  have t1: "truthy (Some ''/ext'')" and t2: "truthy (Some ''/w/x'')" and t3: "\<not> truthy None"
    by (simp_all add: truthy_def)
  have n1: "\<not> startsWith (properNormalize ''/ext'') (properNormalize ''/w'')"
    and n2: "startsWith (properNormalize ''/w/x'') (properNormalize ''/w'')"
    by code_simp+
  have j: "posix_join [''/w'', ''.snow''] = ''/w/.snow''" by code_simp
  have e: "x_ensureDir okEnv ''/w''" by (simp add: okEnv_def)
  from initExt_commondir [of "Some ''/ext''" okEnv "''/w''"] t1 n1 e
  have 1: "snd (snd (initExt okEnv ''/w'' (Some ''/ext''))) \<noteq> Inl CommondirInside
           \<and> take 2 (fst (initExt okEnv ''/w'' (Some ''/ext''))) = [EvEnsureDir ''/w'', EvWriteFile ''/w/.snow'' ''/ext'']"
    by (simp add: j)
  from initExt_commondir [of "Some ''/w/x''" okEnv "''/w''"] t2 n2
  have 2: "snd (snd (initExt okEnv ''/w'' (Some ''/w/x''))) = Inl CommondirInside
           \<and> fst (initExt okEnv ''/w'' (Some ''/w/x'')) = []"
    by simp
  from initExt_commondir [of None okEnv "''/w''"] t3
  have 3: "fst (snd (initExt okEnv ''/w'' None)) = Some ''/w/.snow''"
    by (simp add: j)
  from t1 t2 t3 n1 n2 1 2 3 show ?thesis by simp
qed

text \<open>
  Claim C4 as stated fails: \<open>/a\<close> is a prefix of the workdir \<open>/a/b\<close>, and \<open>initExt\<close> with
  this commondir does not fail.
\<close>

theorem initExt_commondir_prefix_of_workdir:
  "startsWith ''/a/b'' ''/a'' \<and> \<not> isl (snd (snd (initExt okEnv ''/a/b'' (Some ''/a''))))"
  by code_simp


lemma resolveTarget_two_refs:
  assumes "findReferenceByName repo BRANCH t = None" and "length (filterReferenceByHash repo t) > 1"
  shows "resolveTarget repo (TargetString t) = Inl MoreThanOneRef"
  using assms by (auto simp: resolveTarget_def Let_def)

lemma resolveTarget_commit_two_refs:
  assumes "length (filterReferenceByHash repo (c_hash c)) > 1"
  shows "resolveTarget repo (TargetCommit c) = Inr (None, c)"
  using assms by (auto simp: resolveTarget_def Let_def)

text \<open>
  Claim C5 (a raw hash that two references point to gives a detached checkout). With
  \<open>Main\<close> and \<open>feat\<close> both at commit \<open>c2\<close>, \<open>checkout('c2', DEFAULT)\<close> is rejected with
  \<open>more than one ref found\<close> before anything is called, although \<open>c2\<close> is a commit of the
  repository; passing the same commit as a \<open>Commit\<close> object resolves with no reference
  (lemma \<open>resolveTarget_commit_two_refs\<close>).
\<close>

theorem checkout_raw_hash_two_refs:
  "checkout okEnv twoRefRepo (TargetString ''c2'') RESET_DEFAULT = ([], twoRefRepo, Some MoreThanOneRef)"
proof -
  have "findReferenceByName twoRefRepo BRANCH ''c2'' = None"
    by (simp add: findReferenceByName_def twoRefRepo_def twoCommitRepo_def mainRef_def featRef_def)
  moreover have "length (filterReferenceByHash twoRefRepo ''c2'') > 1"
    by (simp add: filterReferenceByHash_def twoRefRepo_def twoCommitRepo_def mainRef_def featRef_def)
  ultimately have "resolveTarget twoRefRepo (TargetString ''c2'') = Inl MoreThanOneRef"
    by (rule resolveTarget_two_refs)
  then show ?thesis by (simp add: checkout_def)
qed







lemma persistCommit_result:
  assumes "persistCommit x repo commit message = (es, repo', r)"
  shows "references repo' = references repo \<and> commits repo' = commits repo
         \<and> ref_name (head repo') = ref_name (head repo)
         \<and> (r \<noteq> Inl NothingToCommit)
         \<and> (\<forall>c. r = Inr c \<longrightarrow> c = commit \<and> ref_hash (head repo') = Some (c_hash commit)
                \<and> es = [EvWriteCommit commit, EvWriteHeadReference (head repo'),
                        EvWriteReference (head repo'), EvWriteLog (LogCommit message)])"
  using assms by (auto simp: persistCommit_def Let_def split: if_splits)

lemma createCommit_nothing_to_commit:
  assumes "addRelPaths i = []" and "deleteRelPaths i = []"
  shows "createCommit x repo (Some i) message False tags userData = ([], repo, Inl NothingToCommit)"
  using assms by (simp add: createCommit_def commitIndex_def)

lemma createCommit_success_cases:
  assumes "createCommit x repo index0 message allowEmpty tags userData = (es, repo', Inr c)"
  obtains es0 index pm es2 where "commitIndex x index0 allowEmpty = (es0, Inr index)"
    and "overlayHeadTree repo index = Inr pm"
    and "persistCommit x (registerCommit repo (newCommit x repo index pm message tags userData))
           (newCommit x repo index pm message tags userData) message = (es2, repo', Inr c)"
    and "es = es0 @ [EvIndexInvalidate] @ es2"
  using assms
  by (auto simp: createCommit_def Let_def split: prod.splits sum.splits if_splits)

lemma registerCommit_result:
  "commits (registerCommit repo c) = commits repo @ [c]
   \<and> commitMap (registerCommit repo c) = mapSet (commitMap repo) (c_hash c) c
   \<and> (if truthy (ref_hash (head repo))
       then references (registerCommit repo c) = references repo
            \<and> ref_name (head (registerCommit repo c)) = ref_name (head repo)
       else ref_name (head (registerCommit repo c)) = ''Main''
            \<and> references (registerCommit repo c) = references repo
                 @ [\<lparr>ref_type = BRANCH, ref_name = ''Main'', ref_hash = Some (c_hash c),
                     ref_start = Some (c_hash c)\<rparr>])"
  by (simp add: registerCommit_def Let_def)

lemma map_of_mapSet: "map_of (mapSet m k v) k = Some v"
  by (induction m k v rule: mapSet.induct) auto

lemma persistCommit_commitMap:
  assumes "persistCommit x repo commit message = (es, repo', r)"
  shows "commitMap repo' = commitMap repo"
  using assms by (auto simp: persistCommit_def Let_def split: if_splits)

lemma createCommit_success:
  assumes "createCommit x repo index0 message allowEmpty tags userData = (es, repo', Inr c)"
  shows "ref_hash (head repo') = Some (c_hash c)
         \<and> commits repo' = commits repo @ [c]
         \<and> map_of (commitMap repo') (c_hash c) = Some c
         \<and> (if truthy (ref_hash (head repo))
             then references repo' = references repo \<and> ref_name (head repo') = ref_name (head repo)
             else ref_name (head repo') = ''Main''
                  \<and> references repo' = references repo
                       @ [\<lparr>ref_type = BRANCH, ref_name = ''Main'', ref_hash = Some (c_hash c),
                           ref_start = Some (c_hash c)\<rparr>])"
proof -
  from assms obtain es0 index pm es2 where
    p: "persistCommit x (registerCommit repo (newCommit x repo index pm message tags userData))
           (newCommit x repo index pm message tags userData) message = (es2, repo', Inr c)"
    by (rule createCommit_success_cases)
  let ?c = "newCommit x repo index pm message tags userData"
  from persistCommit_result [OF p] have c: "c = ?c" and h: "ref_hash (head repo') = Some (c_hash ?c)"
    and r: "references repo' = references (registerCommit repo ?c)"
    and cs: "commits repo' = commits (registerCommit repo ?c)"
    and n: "ref_name (head repo') = ref_name (head (registerCommit repo ?c))"
    by auto
  from persistCommit_commitMap [OF p] have m: "commitMap repo' = commitMap (registerCommit repo ?c)" .
  show ?thesis
    using registerCommit_result [of repo ?c]
    by (simp add: c [symmetric] h r cs n m map_of_mapSet split: if_splits)
qed

text \<open>
  Claim C9 (after a commit the reference HEAD is attached to has the new hash). On the
  repository with two commits and HEAD attached to \<open>Main\<close>, a commit of an index with one
  added path succeeds and moves HEAD to the new commit, and the fourth call writes a
  reference record named \<open>Main\<close> with the new hash; but the reference \<open>Main\<close> held by the
  repository object still points at the old commit \<open>c2\<close>. Lemma \<open>createCommit_success\<close>
  shows this for every successful commit on a repository that has a HEAD commit, together
  with the parts of the claim that hold; lemma \<open>createCommit_nothing_to_commit\<close> is the
  \<open>NothingToCommit\<close> part.
\<close>

theorem createCommit_attached_reference_stale:
  "(case createCommit okEnv twoCommitRepo (Some exampleIndex) ''z'' False [] [] of
      (es, repo', r) \<Rightarrow>
        \<not> isl r
        \<and> head repo' = \<lparr>ref_type = BRANCH, ref_name = ''Main'', ref_hash = Some ''commit-z'', ref_start = Some ''c1''\<rparr>
        \<and> references repo' = [\<lparr>ref_type = BRANCH, ref_name = ''Main'', ref_hash = Some ''c2'', ref_start = Some ''c1''\<rparr>]
        \<and> es ! 3 = EvWriteReference \<lparr>ref_type = BRANCH, ref_name = ''Main'', ref_hash = Some ''commit-z'', ref_start = Some ''c1''\<rparr>)"
  by code_simp

text \<open>
  Claim C10. When \<open><workdir>/ignore\<close> does not exist, \<open>getStatus\<close> makes one call, the
  existence check, and is rejected with a type error (reading \<open>success\<close> of
  \<open>undefined\<close>), whatever the filter: the working tree is never walked and no status
  result is returned.
\<close>

theorem getStatus_without_ignore_file:
  assumes "\<not> x_pathExists x (posix_join [repoWorkDir repo, ''ignore''])"
  shows "getStatus x repo flt = ([EvPathExists (posix_join [repoWorkDir repo, ''ignore''])], Inl JsTypeError)"
  using assms by (simp add: getStatus_def Let_def)

theorem getStatus_without_ignore_file_witness:
  "\<not> x_pathExists okEnv (posix_join [repoWorkDir twoCommitRepo, ''ignore''])
   \<and> getStatus okEnv twoCommitRepo 5 = ([EvPathExists ''/w/ignore''], Inl JsTypeError)"
proof -
  have j: "posix_join [repoWorkDir twoCommitRepo, ''ignore''] = ''/w/ignore''" by code_simp
  have n: "\<not> x_pathExists okEnv (posix_join [repoWorkDir twoCommitRepo, ''ignore''])"
    by (simp add: okEnv_def)
  from getStatus_without_ignore_file [OF n, of 5] n show ?thesis by (simp add: j)
qed

end
